theory Spec2Isabelle
  imports Main "HOL-Library.Multiset" "HOL-Library.Sublist"
begin

section \<open>Strings\<close>

text \<open>
  A Python \<^verbatim>\<open>str\<close> is a sequence of Unicode code points.  The phoneme inventories of
  the program lie outside ASCII, so a character is modelled by its code point and a
  string by the list of its code points; \<open>ustr\<close> reads an ASCII literal.
\<close>

type_synonym uchar = nat
type_synonym ustring = "nat list"

definition ustr :: "string \<Rightarrow> ustring" where
  "ustr s = map of_char s"

text \<open>\<^verbatim>\<open>sep.join(xs)\<close>\<close>

fun join :: "ustring \<Rightarrow> ustring list \<Rightarrow> ustring" where
  "join sep [] = []"
| "join sep [x] = x"
| "join sep (x # y # ys) = x @ sep @ join sep (y # ys)"

text \<open>\<^verbatim>\<open>s.split(sep)\<close> for a separator of one character: \<^verbatim>\<open>"".split(" ") == [""]\<close>,
  and two adjacent separators enclose an empty string.\<close>

fun split_on :: "uchar \<Rightarrow> ustring \<Rightarrow> ustring list" where
  "split_on sep [] = [[]]"
| "split_on sep (c # cs) =
     (if c = sep then [] # split_on sep cs
      else (case split_on sep cs of
              [] \<Rightarrow> [[c]]
            | w # ws \<Rightarrow> (c # w) # ws))"

text \<open>The characters \<^verbatim>\<open>str.strip()\<close> removes, those for which \<^verbatim>\<open>str.isspace()\<close> holds:
  U+0009 to U+000D, U+001C to U+0020, U+0085, U+00A0, U+1680, U+2000 to U+200A, U+2028,
  U+2029, U+202F, U+205F and U+3000.\<close>

definition isspace :: "uchar \<Rightarrow> bool" where
  "isspace c = ((9 \<le> c \<and> c \<le> 13) \<or> (28 \<le> c \<and> c \<le> 32) \<or> c = 133 \<or> c = 160
                \<or> c = 5760 \<or> (8192 \<le> c \<and> c \<le> 8202) \<or> c = 8232 \<or> c = 8233
                \<or> c = 8239 \<or> c = 8287 \<or> c = 12288)"

definition strip :: "ustring \<Rightarrow> ustring" where
  "strip s = rev (dropWhile isspace (rev (dropWhile isspace s)))"

section \<open>Regular expressions\<close>

text \<open>
  The compiled patterns of the \<^verbatim>\<open>regex\<close> module are modelled by what a backtracking
  matcher does.  A position in the subject is the text before it, the text from it on,
  and the text captured by group 1 so far.  A pattern maps a position to the list of
  positions at which a match of it can end, in the order in which backtracking tries
  them: the head of the list is the match the engine reports.
\<close>

type_synonym mpos = "ustring \<times> ustring \<times> ustring option"
type_synonym matcher = "mpos \<Rightarrow> mpos list"

text \<open>A character set \<^verbatim>\<open>[...]\<close>.\<close>

fun rx_class :: "uchar list \<Rightarrow> matcher" where
  "rx_class cs (pre, [], g) = []"
| "rx_class cs (pre, c # suf, g) = (if c \<in> set cs then [(pre @ [c], suf, g)] else [])"

text \<open>A negated character set \<^verbatim>\<open>[^...]\<close>.\<close>

fun rx_nclass :: "uchar list \<Rightarrow> matcher" where
  "rx_nclass cs (pre, [], g) = []"
| "rx_nclass cs (pre, c # suf, g) = (if c \<notin> set cs then [(pre @ [c], suf, g)] else [])"

text \<open>A literal string.\<close>

definition rx_lit :: "ustring \<Rightarrow> matcher" where
  "rx_lit w = (\<lambda>(pre, suf, g).
     if take (length w) suf = w then [(pre @ w, drop (length w) suf, g)] else [])"

text \<open>\<^verbatim>\<open>^\<close> without the MULTILINE flag: the start of the subject.\<close>

definition rx_bos :: matcher where
  "rx_bos = (\<lambda>(pre, suf, g). if pre = [] then [(pre, suf, g)] else [])"

text \<open>\<^verbatim>\<open>$\<close> without the MULTILINE flag: the end of the subject, or just before a newline
  that ends the subject.\<close>

definition rx_eos :: matcher where
  "rx_eos = (\<lambda>(pre, suf, g). if suf = [] \<or> suf = [10] then [(pre, suf, g)] else [])"

text \<open>Alternatives \<^verbatim>\<open>a|b|...\<close>, tried from left to right.\<close>

definition rx_alt :: "matcher list \<Rightarrow> matcher" where
  "rx_alt rs = (\<lambda>p. concat (map (\<lambda>r. r p) rs))"

text \<open>Concatenation: every way to match the first pattern, each followed by every way to
  match the second.\<close>

definition rx_seq :: "matcher \<Rightarrow> matcher \<Rightarrow> matcher" where
  "rx_seq r1 r2 = (\<lambda>p. concat (map r2 (r1 p)))"

text \<open>\<^verbatim>\<open>[...]*\<close>, greedy: the longest run first, the empty run last.\<close>

fun rx_star_class :: "uchar list \<Rightarrow> matcher" where
  "rx_star_class cs (pre, [], g) = [(pre, [], g)]"
| "rx_star_class cs (pre, c # suf, g) =
     (if c \<in> set cs then rx_star_class cs (pre @ [c], suf, g) else []) @ [(pre, c # suf, g)]"

text \<open>\<^verbatim>\<open>(?:[...])+\<close>, greedy.\<close>

definition rx_plus_class :: "uchar list \<Rightarrow> matcher" where
  "rx_plus_class cs = rx_seq (rx_class cs) (rx_star_class cs)"

text \<open>A capturing group \<^verbatim>\<open>(...)\<close>: group 1 is the text the inner pattern consumed.\<close>

definition rx_group :: "matcher \<Rightarrow> matcher" where
  "rx_group r = (\<lambda>(pre, suf, g).
     map (\<lambda>(pre', suf', g'). (pre', suf', Some (drop (length pre) pre'))) (r (pre, suf, g)))"

text \<open>A lookahead \<^verbatim>\<open>(?=...)\<close>: consumes nothing, is not backtracked into, and keeps the
  captures of the first match of its body.\<close>

definition rx_lookahead :: "matcher \<Rightarrow> matcher" where
  "rx_lookahead r = (\<lambda>(pre, suf, g).
     case r (pre, suf, g) of
       [] \<Rightarrow> []
     | (pre', suf', g') # _ \<Rightarrow> [(pre, suf, g')])"

text \<open>A lookbehind \<^verbatim>\<open>(?<=...)\<close>: holds when the body matches some stretch of text that
  ends at the position.\<close>

definition rx_lookbehind :: "matcher \<Rightarrow> matcher" where
  "rx_lookbehind r = (\<lambda>(pre, suf, g).
     if list_ex (\<lambda>k. list_ex (\<lambda>(pre', suf', g'). pre' = pre)
                              (r (take k pre, drop k pre @ suf, g)))
                [0 ..< Suc (length pre)]
     then [(pre, suf, g)] else [])"

text \<open>A compiled pattern: its matcher and whether it has a capturing group (the patterns
  of the program have one group or none).\<close>

record regex =
  matcher :: matcher
  has_group :: bool

text \<open>
  The match the engine reports at a position: the first way to match, or, after an empty
  match at this very position, the first way to match that consumes a character.  The
  result is the number of characters consumed and group 1.
\<close>

definition first_match :: "matcher \<Rightarrow> ustring \<Rightarrow> ustring \<Rightarrow> bool \<Rightarrow> (nat \<times> ustring option) option" where
  "first_match r pre suf must_advance =
     (case filter (\<lambda>(pre', suf', g'). if must_advance then length suf' < length suf else True)
                  (r (pre, suf, None)) of
        [] \<Rightarrow> None
      | (pre', suf', g') # _ \<Rightarrow> Some (length suf - length suf', g'))"

text \<open>
  The scan that \<^verbatim>\<open>finditer\<close>, \<^verbatim>\<open>findall\<close> and \<^verbatim>\<open>sub\<close> share: the leftmost match from
  the current position on, then on from where it ended; after an empty match the next
  match may not be empty at the same position.  A match is reported as (start, end,
  group 1).
\<close>

function scan :: "matcher \<Rightarrow> ustring \<Rightarrow> ustring \<Rightarrow> bool \<Rightarrow> (nat \<times> nat \<times> ustring option) list" where
  "scan r pre suf must_advance =
     (case first_match r pre suf must_advance of
        Some (k, g) \<Rightarrow>
          (length pre, length pre + k, g) #
            (if k = 0 then scan r pre suf True
             else scan r (pre @ take k suf) (drop k suf) False)
      | None \<Rightarrow>
          (case suf of
             [] \<Rightarrow> []
           | c # cs \<Rightarrow> scan r (pre @ [c]) cs False))"
  by pat_completeness auto
termination
proof (relation "measure (\<lambda>(r, pre, suf, adv). 2 * length suf + (if adv then 0 else 1))")
  show "wf (measure (\<lambda>(r, pre, suf, adv). 2 * length suf + (if adv then 0 else 1)))"
    by simp
next
  fix r :: matcher and pre suf :: ustring and must_advance :: bool
    and x2 :: "nat \<times> ustring option" and k :: nat and g :: "ustring option"
  assume fm: "first_match r pre suf must_advance = Some x2" and x2: "(k, g) = x2"
  {
    assume "k = 0"
    have "\<not> must_advance"
    proof
      assume adv: must_advance
      from fm x2 \<open>k = 0\<close> obtain pre' suf' g' rest
        where f: "filter (\<lambda>(pre', suf', g'). length suf' < length suf) (r (pre, suf, None))
                    = (pre', suf', g') # rest"
          and k: "length suf - length suf' = 0"
        by (auto simp: first_match_def adv split: list.splits)
      from f have "(pre', suf', g') \<in> set (filter (\<lambda>(pre', suf', g'). length suf' < length suf)
                                              (r (pre, suf, None)))"
        by simp
      then have "length suf' < length suf" by simp
      with k show False by simp
    qed
    then show "((r, pre, suf, True), (r, pre, suf, must_advance))
        \<in> measure (\<lambda>(r, pre, suf, adv). 2 * length suf + (if adv then 0 else 1))"
      by simp
  }
  {
    assume "k \<noteq> 0"
    moreover from fm x2 obtain suf' :: ustring where "k = length suf - length suf'"
      by (auto simp: first_match_def split: list.splits if_splits)
    ultimately have "0 < k" "k \<le> length suf" by simp_all
    then show "((r, pre @ take k suf, drop k suf, False), (r, pre, suf, must_advance))
        \<in> measure (\<lambda>(r, pre, suf, adv). 2 * length suf + (if adv then 0 else 1))"
      by (cases must_advance) auto
  }
next
  fix r :: matcher and pre suf cs :: ustring and must_advance :: bool and c :: uchar
  assume "suf = c # cs"
  then show "((r, pre @ [c], cs, False), (r, pre, suf, must_advance))
      \<in> measure (\<lambda>(r, pre, suf, adv). 2 * length suf + (if adv then 0 else 1))"
    by simp
qed

declare scan.simps [simp del]

definition finditer :: "regex \<Rightarrow> ustring \<Rightarrow> (nat \<times> nat \<times> ustring option) list" where
  "finditer rx s = scan (matcher rx) [] s False"

text \<open>\<^verbatim>\<open>pattern.findall(s)\<close>: for a pattern with one group the list of the texts of the
  group (empty when the group took no part), for a pattern with no group the list of the
  matched texts.\<close>

definition findall :: "regex \<Rightarrow> ustring \<Rightarrow> ustring list" where
  "findall rx s =
     map (\<lambda>(b, e, g).
            if has_group rx then (case g of None \<Rightarrow> [] | Some t \<Rightarrow> t)
            else take (e - b) (drop b s))
         (finditer rx s)"

text \<open>\<^verbatim>\<open>pattern.sub(repl, s)\<close> for a replacement text without group references: the text
  between the matches is kept and every match is replaced.\<close>

fun sub_spans :: "ustring \<Rightarrow> ustring \<Rightarrow> nat \<Rightarrow> (nat \<times> nat \<times> ustring option) list \<Rightarrow> ustring" where
  "sub_spans repl s pos [] = drop pos s"
| "sub_spans repl s pos ((b, e, g) # ms) =
     take (b - pos) (drop pos s) @ repl @ sub_spans repl s e ms"

definition regex_sub :: "regex \<Rightarrow> ustring \<Rightarrow> ustring \<Rightarrow> ustring" where
  "regex_sub rx repl s = sub_spans repl s 0 (finditer rx s)"

section \<open>The syllable patterns\<close>

text \<open>
  \<^verbatim>\<open>regex_en_ipa\<close> and \<^verbatim>\<open>regex_pol_ipa\<close> build the same two pattern texts from their
  inventories and compile them with the VERBOSE flag (white space and comments of the
  pattern text are dropped):

  \<^verbatim>\<open>(?= (?<=[V]|D|^) ([C]* (?:[V]|D) [C]*) (?:[V]|D|$) )\<close> and \<^verbatim>\<open>(?<=^)(?:[C])+(?:$)\<close>

  where \<open>V\<close> and \<open>C\<close> are the characters put into the sets and \<open>D\<close> is the text
  \<^verbatim>\<open>d1|d2|...\<close> of the alternatives joined with a bar.  Here \<open>D\<close> is the list of these
  alternatives; the single characters of \<open>V\<close> are tried before them, as in the pattern
  text.  Both inventories of the code have two diphthongs or more; the text joined from
  no diphthong at all is empty, and it stands for one empty alternative (see
  \<open>alternatives\<close> below), not for none.
\<close>

definition pattern_syllable :: "uchar list \<Rightarrow> ustring list \<Rightarrow> uchar list \<Rightarrow> regex" where
  "pattern_syllable vowels diphtongues consonants =
     \<lparr> matcher =
         rx_lookahead
           (rx_seq (rx_lookbehind (rx_alt (rx_class vowels # map rx_lit diphtongues @ [rx_bos])))
           (rx_seq (rx_group
                      (rx_seq (rx_star_class consonants)
                      (rx_seq (rx_alt (rx_class vowels # map rx_lit diphtongues))
                              (rx_star_class consonants))))
                   (rx_alt (rx_class vowels # map rx_lit diphtongues @ [rx_eos])))),
       has_group = True \<rparr>"

definition pattern_consonant :: "uchar list \<Rightarrow> regex" where
  "pattern_consonant consonants =
     \<lparr> matcher = rx_seq (rx_lookbehind rx_bos) (rx_seq (rx_plus_class consonants) rx_eos),
       has_group = False \<rparr>"

text \<open>
  The English inventory.  The vowels are U+00E6, U+0251, U+0259, U+025B, i, U+026A,
  U+0254, u, U+028A, U+028C; the consonants are U+03B8, w, l, m, v, h, p, U+0261,
  U+014B, s, z, b, k, U+0283, U+0279, d, n, U+0292, j, t, U+00F0, f and the tie bar
  U+0361.
\<close>

definition regex_en_ipa :: "regex \<times> regex" where
  "regex_en_ipa =
     (let vowels = [230, 593, 601, 603, 105, 618, 596, 117, 650, 652];
          diphtongues = [ustr ''aj'', ustr ''aw'', ustr ''ej'', ustr ''oj'', ustr ''ow''];
          consonants = [952, 119, 108, 109, 118, 104, 112, 609, 331, 115, 122, 98, 107, 643,
                        633, 100, 110, 658, 106, 116, 240, 102, 865]
      in (pattern_syllable vowels diphtongues consonants, pattern_consonant consonants))"

text \<open>
  The Polish inventory.  The vowels are a, U+025B, i, U+0268, U+0254, u; the special
  vowels are U+025B and U+0254 followed by the combining tilde U+0303.  The pattern text
  puts \<^verbatim>\<open>{consonants}|{special_consonants}\<close> between the brackets of one character set,
  so the set holds the consonants, the bar, and every character of the special
  consonants.
\<close>

definition regex_pol_ipa :: "regex \<times> regex" where
  "regex_pol_ipa =
     (let vowels = [97, 603, 105, 616, 596, 117];
          special_vowels = [[603, 771], [596, 771]];
          consonants = [597, 657, 656, 611, 626, 642, 120, 119, 108, 109, 118, 112, 609, 331,
                        115, 122, 98, 107, 100, 114, 110, 106, 116, 102];
          special_consonants = join (ustr ''|'')
            [[100, 865, 122], [100, 865, 657], [100, 865, 656], [116, 865, 597],
             [116, 865, 115], [116, 865, 642], [609, 690], [107, 690]];
          consonant_set = consonants @ ustr ''|'' @ special_consonants
      in (pattern_syllable vowels special_vowels consonant_set, pattern_consonant consonant_set))"

text \<open>
  The alternatives that the text \<^verbatim>\<open>"|".join(texts)\<close> stands for where the pattern text has
  it between two bars: the texts themselves, and for no text at all the one empty
  alternative, which matches the empty string.
\<close>

definition alternatives :: "ustring list \<Rightarrow> ustring list" where
  "alternatives texts = (if texts = [] then [[]] else texts)"

text \<open>
  The body of \<^verbatim>\<open>regex_en_ipa\<close> for other values of its variables \<^verbatim>\<open>vowels\<close>,
  \<^verbatim>\<open>diphtongues\<close> and \<^verbatim>\<open>consonants\<close>: the function itself takes no inventory.
\<close>

definition regex_en_ipa_for :: "uchar list \<Rightarrow> ustring list \<Rightarrow> uchar list \<Rightarrow> regex \<times> regex" where
  "regex_en_ipa_for vowels diphtongues consonants =
     (pattern_syllable vowels (alternatives diphtongues) consonants, pattern_consonant consonants)"

section \<open>Syllabifying a word\<close>

text \<open>The body of \<^verbatim>\<open>syllabify\<close>; the transcription to IPA is a function parameter.\<close>

definition syllabify :: "ustring \<Rightarrow> (ustring \<Rightarrow> ustring) \<Rightarrow> regex \<times> regex \<Rightarrow> bool \<Rightarrow> ustring" where
  "syllabify word ipa_converter syllable_pattern add_boundaries =
     (let regular_pattern = fst syllable_pattern;
          consonant_pattern = snd syllable_pattern;
          string = ipa_converter word;
          syllable_matches = findall regular_pattern string;
          syllables = (if syllable_matches \<noteq> [] then join (ustr ''_'') syllable_matches
                       else join (ustr ''_'') (findall consonant_pattern string))
      in if add_boundaries then ustr ''#'' @ syllables @ ustr ''#'' else syllables)"

text \<open>The \<^verbatim>\<open>findall\<close> calls one run of the body makes, in order: the pattern and its
  subject.\<close>

definition syllabify_calls :: "ustring \<Rightarrow> (ustring \<Rightarrow> ustring) \<Rightarrow> regex \<times> regex \<Rightarrow> bool \<Rightarrow> (regex \<times> ustring) list" where
  "syllabify_calls word ipa_converter syllable_pattern add_boundaries =
     (let regular_pattern = fst syllable_pattern;
          consonant_pattern = snd syllable_pattern;
          string = ipa_converter word;
          syllable_matches = findall regular_pattern string
      in if syllable_matches \<noteq> [] then [(regular_pattern, string)]
         else [(regular_pattern, string), (consonant_pattern, string)])"

text \<open>
  \<^verbatim>\<open>@lru_cache(maxsize=None)\<close>: a dictionary from the arguments of a call to its result,
  never evicted.  A call whose arguments are a key of the dictionary returns the stored
  result and does not run the body; any other call runs the body and stores the result.
  The state also records the \<^verbatim>\<open>findall\<close> calls made so far.
\<close>

type_synonym cache_key = "ustring \<times> (ustring \<Rightarrow> ustring) \<times> (regex \<times> regex) \<times> bool"

record cache_state =
  cache :: "cache_key \<rightharpoonup> ustring"
  findall_calls :: "(regex \<times> ustring) list"

definition syllabify_cached ::
  "cache_state \<Rightarrow> ustring \<Rightarrow> (ustring \<Rightarrow> ustring) \<Rightarrow> regex \<times> regex \<Rightarrow> bool \<Rightarrow> ustring \<times> cache_state" where
  "syllabify_cached st word ipa_converter syllable_pattern add_boundaries =
     (let key = (word, ipa_converter, syllable_pattern, add_boundaries)
      in case cache st key of
           Some result \<Rightarrow> (result, st)
         | None \<Rightarrow>
             (let result = syllabify word ipa_converter syllable_pattern add_boundaries
              in (result,
                  st\<lparr> cache := (cache st)(key \<mapsto> result),
                      findall_calls := findall_calls st
                        @ syllabify_calls word ipa_converter syllable_pattern add_boundaries \<rparr>)))"

text \<open>The cache holds results of the body only.\<close>

definition cache_ok :: "cache_state \<Rightarrow> bool" where
  "cache_ok st = (\<forall>word ipa_converter syllable_pattern add_boundaries result.
     cache st (word, ipa_converter, syllable_pattern, add_boundaries) = Some result \<longrightarrow>
     result = syllabify word ipa_converter syllable_pattern add_boundaries)"

section \<open>Syllabifying a line\<close>

text \<open>\<^verbatim>\<open>line.strip().lower().split(" ")\<close> without the empty words.  \<^verbatim>\<open>str.lower\<close> is the
  parameter \<open>lower\<close>: its table of case mappings is not part of the program.\<close>

definition tokenize :: "(ustring \<Rightarrow> ustring) \<Rightarrow> ustring \<Rightarrow> ustring list" where
  "tokenize lower line = filter (\<lambda>word. word \<noteq> []) (split_on 32 (lower (strip line)))"

text \<open>The result of \<^verbatim>\<open>syllabify_line\<close>: the pair (cues, outcomes) or the list of
  syllabified words.\<close>

datatype line_result = Event ustring ustring | Syllables "ustring list"

text \<open>The loop over the words, with the list \<^verbatim>\<open>syllables\<close> built so far.  It calls
  the cached \<open>syllabify\<close>; \<open>syllables_loop_cached\<close> below threads the state of the
  cache through the loop and returns the same list (lemma \<open>syllables_loop_cached_value\<close>),
  so the loop is stated on the values.\<close>

fun syllables_loop ::
  "ustring list \<Rightarrow> (ustring \<Rightarrow> ustring) \<Rightarrow> regex \<times> regex \<Rightarrow> bool \<Rightarrow> ustring list \<Rightarrow> ustring list" where
  "syllables_loop [] ipa_converter syllable_pattern add_boundaries syllables = syllables"
| "syllables_loop (word # words) ipa_converter syllable_pattern add_boundaries syllables =
     (let s = syllabify word ipa_converter syllable_pattern add_boundaries
      in syllables_loop words ipa_converter syllable_pattern add_boundaries
           (if s \<noteq> ustr ''##'' then syllables @ [s] else syllables))"

fun syllables_loop_cached ::
  "cache_state \<Rightarrow> ustring list \<Rightarrow> (ustring \<Rightarrow> ustring) \<Rightarrow> regex \<times> regex \<Rightarrow> bool \<Rightarrow> ustring list
   \<Rightarrow> ustring list \<times> cache_state" where
  "syllables_loop_cached st [] ipa_converter syllable_pattern add_boundaries syllables = (syllables, st)"
| "syllables_loop_cached st (word # words) ipa_converter syllable_pattern add_boundaries syllables =
     (let (s, st') = syllabify_cached st word ipa_converter syllable_pattern add_boundaries
      in syllables_loop_cached st' words ipa_converter syllable_pattern add_boundaries
           (if s \<noteq> ustr ''##'' then syllables @ [s] else syllables))"

definition syllabify_line ::
  "(ustring \<Rightarrow> ustring) \<Rightarrow> ustring \<Rightarrow> (ustring \<Rightarrow> ustring) \<Rightarrow> regex \<times> regex \<Rightarrow> regex \<Rightarrow> bool \<Rightarrow> bool
   \<Rightarrow> line_result" where
  "syllabify_line lower line ipa_converter syllable_pattern not_symbol_pattern add_boundaries as_event =
     (let line = regex_sub not_symbol_pattern (ustr '' '') line;
          words = tokenize lower line;
          syllables = syllables_loop words ipa_converter syllable_pattern add_boundaries []
      in if as_event then Event (join (ustr ''_'') syllables) (join (ustr ''_'') words)
         else Syllables syllables)"

section \<open>Chunking a sequence of lines\<close>

text \<open>
  \<^verbatim>\<open>chunk(iterable, chunksize)\<close> is \<^verbatim>\<open>iter(lambda: list(islice(iterator, chunksize)), [])\<close>:
  the callable is called again and again, each call takes the next (at most) \<open>chunksize\<close>
  items off the one shared iterator, and the iteration stops at the first call that
  returns the sentinel \<open>[]\<close>.  The input is a finite sequence; \<open>chunksize\<close> is a
  natural number (\<^verbatim>\<open>islice\<close> raises on a negative stop, which is outside this model).
\<close>

function chunk :: "'a list \<Rightarrow> nat \<Rightarrow> 'a list list" where
  "chunk xs chunksize =
     (let c = take chunksize xs
      in if c = [] then [] else c # chunk (drop chunksize xs) chunksize)"
  by pat_completeness auto
termination
  by (relation "measure (\<lambda>(xs, chunksize). length xs)") auto

declare chunk.simps [simp del]

section \<open>The pool of workers\<close>

text \<open>
  \<^verbatim>\<open>Pool.imap(func, iterable, chunksize)\<close> of the standard library cuts the iterable into
  tasks of \<open>chunksize\<close> items, hands the tasks to the workers, and yields the results in
  the order of the items.  The workers finish their tasks in any order: a finished task
  is reported with its number to the iterator, which yields it at once when it is the
  next one due (and then every stored result that has become due), and stores it
  otherwise.
\<close>

record 'b imap_iterator =
  index :: nat
  items :: "'b list"
  unsorted :: "(nat \<times> 'b) list"

text \<open>The loop \<^verbatim>\<open>while self._index in self._unsorted\<close>: pop the result that is due, append
  it to the items, increment the index.\<close>

function drain :: "'b imap_iterator \<Rightarrow> 'b imap_iterator" where
  "drain it =
     (case map_of (unsorted it) (index it) of
        None \<Rightarrow> it
      | Some obj \<Rightarrow>
          drain (it\<lparr> index := Suc (index it), items := items it @ [obj],
                     unsorted := filter (\<lambda>kv. fst kv \<noteq> index it) (unsorted it) \<rparr>))"
  by pat_completeness auto
termination
proof (relation "measure (\<lambda>it. length (unsorted it))")
  show "wf (measure (\<lambda>it. length (unsorted it)))" by simp
next
  fix it :: "'b imap_iterator" and obj :: 'b
  assume "map_of (unsorted it) (index it) = Some obj"
  then have "(index it, obj) \<in> set (unsorted it)" by (rule map_of_SomeD)
  then have "length (filter (\<lambda>kv. fst kv \<noteq> index it) (unsorted it)) < length (unsorted it)"
    by (intro length_filter_less [where x = "(index it, obj)"]) simp_all
  then show "(it\<lparr> index := Suc (index it), items := items it @ [obj],
                  unsorted := filter (\<lambda>kv. fst kv \<noteq> index it) (unsorted it) \<rparr>, it)
      \<in> measure (\<lambda>it. length (unsorted it))"
    by simp
qed

declare drain.simps [simp del]

text \<open>\<^verbatim>\<open>IMapIterator._set(i, obj)\<close>: the result of task \<open>i\<close> arrives.\<close>

definition imap_set :: "'b imap_iterator \<Rightarrow> nat \<Rightarrow> 'b \<Rightarrow> 'b imap_iterator" where
  "imap_set it i obj =
     (if index it = i
      then drain (it\<lparr> index := Suc (index it), items := items it @ [obj] \<rparr>)
      else it\<lparr> unsorted := (i, obj) # filter (\<lambda>kv. fst kv \<noteq> i) (unsorted it) \<rparr>)"

text \<open>
  One call of \<^verbatim>\<open>imap\<close>.  The parameter \<open>order\<close> stands for the workers: it puts the
  numbered tasks into the order in which they finish.  The items yielded are the results
  of the tasks in the order in which the iterator releases them, flattened.
\<close>

definition pool_imap ::
  "((nat \<times> 'a list) list \<Rightarrow> (nat \<times> 'a list) list) \<Rightarrow> ('a \<Rightarrow> 'b) \<Rightarrow> 'a list \<Rightarrow> nat \<Rightarrow> 'b list" where
  "pool_imap order func iterable chunksize =
     (let tasks = enumerate 0 (chunk iterable chunksize);
          it = foldl (\<lambda>it (i, task). imap_set it i (map func task))
                 \<lparr> index = 0, items = [], unsorted = [] \<rparr> (order tasks)
      in concat (items it))"

text \<open>A completion order loses and invents no task.\<close>

definition fair :: "(nat \<Rightarrow> (nat \<times> 'a list) list \<Rightarrow> (nat \<times> 'a list) list) \<Rightarrow> bool" where
  "fair sched = (\<forall>b tasks. mset (sched b tasks) = mset tasks)"

section \<open>Syllabifying a corpus\<close>

datatype error = ValueError

text \<open>
  \<^verbatim>\<open>syllabify_corpus_generator\<close>: the lines are read in batches of
  \<open>chunksize * numcores\<close> lines, and each batch goes through \<^verbatim>\<open>pool.imap\<close> with tasks of
  \<open>chunksize\<close> lines.  \<open>sched b\<close> is the completion order of the tasks of batch \<open>b\<close>.
  \<^verbatim>\<open>Pool(numcores)\<close> raises ValueError for fewer than one process.
\<close>

definition syllabify_corpus_generator ::
  "(nat \<Rightarrow> (nat \<times> ustring list) list \<Rightarrow> (nat \<times> ustring list) list) \<Rightarrow> (ustring \<Rightarrow> ustring) \<Rightarrow>
   ustring list \<Rightarrow> (ustring \<Rightarrow> ustring) \<Rightarrow> regex \<times> regex \<Rightarrow> regex \<Rightarrow> bool \<Rightarrow> bool \<Rightarrow> nat \<Rightarrow> nat
   \<Rightarrow> error + line_result list" where
  "syllabify_corpus_generator sched lower lines ipa_converter syllable_pattern not_symbol_pattern
       add_boundaries as_event numcores chunksize =
     (let syllabify' = (\<lambda>line. syllabify_line lower line ipa_converter syllable_pattern
                                  not_symbol_pattern add_boundaries as_event)
      in if numcores < 1 then Inl ValueError
         else Inr (concat (map (\<lambda>(b, chunk'). pool_imap (sched b) syllabify' chunk' chunksize)
                               (enumerate 0 (chunk lines (chunksize * numcores))))))"

text \<open>\<^verbatim>\<open>cues, outcomes = syllabified\<close>: a pair unpacks, and so does a list of two items.\<close>

fun unpack :: "line_result \<Rightarrow> error + ustring \<times> ustring" where
  "unpack (Event cues outcomes) = Inr (cues, outcomes)"
| "unpack (Syllables [cues, outcomes]) = Inr (cues, outcomes)"
| "unpack (Syllables _) = Inl ValueError"

text \<open>The loop of \<^verbatim>\<open>syllabify_corpus\<close> over the results, with the strings written to the
  event file so far.\<close>

fun write_events :: "line_result list \<Rightarrow> ustring list \<Rightarrow> error + ustring list" where
  "write_events [] outfile = Inr outfile"
| "write_events (syllabified # results) outfile =
     (case unpack syllabified of
        Inl e \<Rightarrow> Inl e
      | Inr (cues, outcomes) \<Rightarrow>
          write_events results (outfile @ [cues @ [9] @ outcomes @ [10]]))"

text \<open>
  \<^verbatim>\<open>syllabify_corpus\<close>: \<open>corpus\<close> is the list of the lines of the corpus file, the result
  is the list of the strings written to the event file, one \<^verbatim>\<open>write\<close> each.  The progress
  messages and the clock are left out.
\<close>

definition syllabify_corpus ::
  "(nat \<Rightarrow> (nat \<times> ustring list) list \<Rightarrow> (nat \<times> ustring list) list) \<Rightarrow> (ustring \<Rightarrow> ustring) \<Rightarrow>
   ustring list \<Rightarrow> (ustring \<Rightarrow> ustring) \<Rightarrow> regex \<times> regex \<Rightarrow> regex \<Rightarrow> bool \<Rightarrow> nat \<Rightarrow> nat
   \<Rightarrow> error + ustring list" where
  "syllabify_corpus sched lower corpus ipa_converter syllable_pattern not_symbol_pattern
       add_boundaries numcores chunksize =
     (case syllabify_corpus_generator sched lower corpus ipa_converter syllable_pattern
             not_symbol_pattern add_boundaries True numcores chunksize of
        Inl e \<Rightarrow> Inl e
      | Inr results \<Rightarrow> write_events results [])"

section \<open>Values for the parameters\<close>

text \<open>
  The alphabet \<^verbatim>\<open>ENGLISH\<close> of the program, the pattern \<^verbatim>\<open>[^ENGLISH]\<close> of the symbols
  that are not letters of it as a value for \<open>not_symbol_pattern\<close>, and \<^verbatim>\<open>str.lower\<close>
  on ASCII text.
\<close>

definition ENGLISH :: ustring where
  "ENGLISH = ustr ''abcdefghijklmnopqrstuvwxyz'' @ ustr ''ABCDEFGHIJKLMNOPQRSTUVWXYZ''"

definition not_english :: regex where
  "not_english = \<lparr> matcher = rx_nclass ENGLISH, has_group = False \<rparr>"

definition lower_ascii :: "ustring \<Rightarrow> ustring" where
  "lower_ascii s = map (\<lambda>c. if 65 \<le> c \<and> c \<le> 90 then c + 32 else c) s"

section \<open>The invariant of the iterator\<close>

text \<open>
  While the tasks in \<open>S\<close> have finished, \<open>res i\<close> being the result of task \<open>i\<close> of
  \<open>n\<close> tasks: every task below the index has finished and its result is among the
  items, in order; the stored results are those of the finished tasks from the index on.
\<close>

definition imap_inv :: "(nat \<Rightarrow> 'b) \<Rightarrow> nat \<Rightarrow> nat set \<Rightarrow> 'b imap_iterator \<Rightarrow> bool" where
  "imap_inv res n S it \<longleftrightarrow>
     index it \<le> n \<and> S \<subseteq> {..<n} \<and> {..<index it} \<subseteq> S \<and>
     items it = map res [0 ..< index it] \<and>
     (\<forall>i. map_of (unsorted it) i = (if i \<in> S \<and> index it \<le> i then Some (res i) else None))"

section \<open>The syllables of a string of symbols\<close>

text \<open>
  A phonemic string is a sequence of symbols of an inventory.  A symbol is a nucleus, one
  vowel or one diphthong (for Polish, one special vowel), or it is one character of the
  consonant set.
\<close>

definition is_consonant :: "uchar list \<Rightarrow> ustring \<Rightarrow> bool" where
  "is_consonant consonants t \<longleftrightarrow> (\<exists>c \<in> set consonants. t = [c])"

definition is_nucleus :: "uchar list \<Rightarrow> ustring list \<Rightarrow> ustring \<Rightarrow> bool" where
  "is_nucleus vowels diphtongues t \<longleftrightarrow> (\<exists>v \<in> set vowels. t = [v]) \<or> t \<in> set diphtongues"

text \<open>
  What the two inventories of the program have in common.  No character is both a vowel
  and a consonant.  A diphthong has two characters, and it is of one of two kinds: its
  first character is neither a vowel nor a consonant and its second is a consonant (the
  English diphthongs, such as "aj"); or its first character is a vowel and its second is
  a mark that is no vowel, no consonant, no newline and not the first character of a
  diphthong (the Polish nasal vowels, a vowel and the combining tilde).
\<close>

definition inventory_ok :: "uchar list \<Rightarrow> ustring list \<Rightarrow> uchar list \<Rightarrow> bool" where
  "inventory_ok vowels diphtongues consonants \<longleftrightarrow>
     set vowels \<inter> set consonants = {} \<and>
     list_all (\<lambda>d. length d = 2 \<and>
                 (hd d \<notin> set vowels \<and> hd d \<notin> set consonants \<and> last d \<in> set consonants
                  \<or> hd d \<in> set vowels \<and> last d \<notin> set vowels \<and> last d \<notin> set consonants
                      \<and> last d \<noteq> 10 \<and> list_all (\<lambda>d'. hd d' \<noteq> last d) diphtongues))
              diphtongues"

text \<open>
  What the syllable pattern finds in a sequence of symbols, written as a scan from nucleus
  to nucleus: the consonants up to the next nucleus, the nucleus, and the consonants
  after it; then on from behind that nucleus.
\<close>

function syllables_of_symbols :: "uchar list \<Rightarrow> ustring list \<Rightarrow> ustring list" where
  "syllables_of_symbols consonants symbols =
     (case dropWhile (is_consonant consonants) symbols of
        [] \<Rightarrow> []
      | n # rest \<Rightarrow>
          (concat (takeWhile (is_consonant consonants) symbols) @ n
             @ concat (takeWhile (is_consonant consonants) rest))
          # syllables_of_symbols consonants rest)"
  by pat_completeness auto
termination
proof (relation "measure (\<lambda>(consonants, symbols). length symbols)")
  show "wf (measure (\<lambda>(consonants, symbols). length symbols))" by simp
next
  fix consonants :: "uchar list" and symbols :: "ustring list" and n :: ustring and rest :: "ustring list"
  assume "dropWhile (is_consonant consonants) symbols = n # rest"
  then have "length (n # rest) \<le> length symbols"
    by (metis length_dropWhile_le)
  then show "((consonants, rest), (consonants, symbols))
      \<in> measure (\<lambda>(consonants, symbols). length symbols)"
    by simp
qed

declare syllables_of_symbols.simps [simp del]

text \<open>A pattern that consumes text forwards, and a pattern that leaves group 1 alone.\<close>

definition advances :: "matcher \<Rightarrow> bool" where
  "advances r \<longleftrightarrow>
     (\<forall>pre suf g p' s' g'. (p', s', g') \<in> set (r (pre, suf, g))
        \<longrightarrow> (\<exists>t. p' = pre @ t \<and> suf = t @ s'))"

definition keeps_group :: "matcher \<Rightarrow> bool" where
  "keeps_group r \<longleftrightarrow>
     (\<forall>pre suf g p' s' g'. (p', s', g') \<in> set (r (pre, suf, g)) \<longrightarrow> g' = g)"

text \<open>A syllable may start at the start of the string and behind a vowel.\<close>

definition start_ok :: "uchar list \<Rightarrow> ustring \<Rightarrow> bool" where
  "start_ok vowels pre \<longleftrightarrow> pre = [] \<or> last pre \<in> set vowels"

section \<open>Properties of chunk\<close>

lemma chunk_Nil [simp]: "chunk [] n = []"
  by (simp add: chunk.simps)

lemma chunk_zero [simp]: "chunk xs 0 = []"
  by (simp add: chunk.simps)

lemma chunk_step:
  "0 < n \<Longrightarrow> xs \<noteq> [] \<Longrightarrow> chunk xs n = take n xs # chunk (drop n xs) n"
  by (subst chunk.simps) (simp add: Let_def)

lemma concat_chunk: "0 < n \<Longrightarrow> concat (chunk xs n) = xs"
proof (induction xs n rule: chunk.induct)
  case (1 xs n)
  show ?case
  proof (cases "xs = []")
    case True
    then show ?thesis by simp
  next
    case False
    with 1 have "concat (chunk (drop n xs) n) = drop n xs" by simp
    with False 1(2) show ?thesis by (simp add: chunk_step)
  qed
qed

lemma chunk_elems: "c \<in> set (chunk xs n) \<Longrightarrow> c \<noteq> [] \<and> length c \<le> n"
proof (induction xs n rule: chunk.induct)
  case (1 xs n)
  show ?case
  proof (cases "n = 0 \<or> xs = []")
    case True
    with 1(2) show ?thesis by auto
  next
    case False
    then have ne: "take n xs \<noteq> []" by simp
    from False 1(2) have "c = take n xs \<or> c \<in> set (chunk (drop n xs) n)"
      by (simp add: chunk_step)
    then show ?thesis
    proof
      assume "c = take n xs"
      with ne show ?thesis by simp
    next
      assume "c \<in> set (chunk (drop n xs) n)"
      with 1(1) [OF refl ne] show ?thesis .
    qed
  qed
qed

lemma chunk_full: "Suc i < length (chunk xs n) \<Longrightarrow> length (chunk xs n ! i) = n"
proof (induction xs n arbitrary: i rule: chunk.induct)
  case (1 xs n)
  show ?case
  proof (cases "n = 0 \<or> xs = []")
    case True
    with 1(2) show ?thesis by auto
  next
    case False
    then have ne: "take n xs \<noteq> []" by simp
    from False have step: "chunk xs n = take n xs # chunk (drop n xs) n"
      by (simp add: chunk_step)
    show ?thesis
    proof (cases i)
      case 0
      with 1(2) step have "chunk (drop n xs) n \<noteq> []" by auto
      then have "drop n xs \<noteq> []" by auto
      then have "n < length xs" by simp
      with 0 step show ?thesis by simp
    next
      case (Suc j)
      with 1(2) step have "Suc j < length (chunk (drop n xs) n)" by simp
      from 1(1) [OF refl ne this] Suc step show ?thesis by simp
    qed
  qed
qed

text \<open>
  C10. For every finite sequence and every chunksize of at least 1, the chunks of
  \<open>chunk\<close> concatenated in order give back the sequence; every chunk is non-empty and has
  at most chunksize elements, and every chunk but the last has exactly chunksize elements.
\<close>

theorem chunk_partition:
  assumes "1 \<le> chunksize"
  shows "concat (chunk xs chunksize) = xs
       \<and> (\<forall>c \<in> set (chunk xs chunksize). c \<noteq> [] \<and> length c \<le> chunksize)
       \<and> (\<forall>i. Suc i < length (chunk xs chunksize) \<longrightarrow> length (chunk xs chunksize ! i) = chunksize)"
  using assms concat_chunk [of chunksize xs] chunk_elems [of _ xs chunksize]
    chunk_full [of _ xs chunksize] by auto

theorem chunk_partition_witness:
  "chunk [1, 2, 3, 4, 5 :: nat] 2 = [[1, 2], [3, 4], [5]]
   \<and> concat (chunk [1, 2, 3, 4, 5 :: nat] 2) = [1, 2, 3, 4, 5]"
proof -
  have h: "(1::nat) \<le> 2" by simp
  have "chunk [1, 2, 3, 4, 5 :: nat] 2 = [[1, 2], [3, 4], [5]]"
    by (simp add: chunk.simps)
  with chunk_partition [OF h, of "[1, 2, 3, 4, 5 :: nat]"] show ?thesis by simp
qed

section \<open>The iterator restores the order of the tasks\<close>

lemma map_of_filter_fst:
  "map_of (filter (\<lambda>kv. fst kv \<noteq> k) al) i = (if i = k then None else map_of al i)"
  by (induction al) auto

lemma drain_inv:
  "imap_inv res n S it \<Longrightarrow> imap_inv res n S (drain it) \<and> index (drain it) \<notin> S"
proof (induction it rule: drain.induct)
  case (1 it)
  show ?case
  proof (cases "map_of (unsorted it) (index it)")
    case None
    with 1(2) have "index it \<notin> S"
      by (auto simp: imap_inv_def split: if_splits)
    moreover from None have "drain it = it" by (simp add: drain.simps)
    ultimately show ?thesis using 1(2) by simp
  next
    case (Some obj)
    let ?it' = "it\<lparr> index := Suc (index it), items := items it @ [obj],
                     unsorted := filter (\<lambda>kv. fst kv \<noteq> index it) (unsorted it) \<rparr>"
    from Some 1(2) have obj: "obj = res (index it)" and inS: "index it \<in> S"
      by (auto simp: imap_inv_def split: if_splits)
    with 1(2) have lt: "index it < n" by (auto simp: imap_inv_def)
    have "imap_inv res n S ?it'"
      unfolding imap_inv_def
    proof (intro conjI allI)
      show "index ?it' \<le> n" using lt by simp
      show "S \<subseteq> {..<n}" using 1(2) by (simp add: imap_inv_def)
      show "{..<index ?it'} \<subseteq> S" using 1(2) inS by (auto simp: imap_inv_def less_Suc_eq)
      show "items ?it' = map res [0 ..< index ?it']" using 1(2) obj by (simp add: imap_inv_def)
      fix i
      show "map_of (unsorted ?it') i = (if i \<in> S \<and> index ?it' \<le> i then Some (res i) else None)"
        using 1(2) by (auto simp: imap_inv_def map_of_filter_fst)
    qed
    from 1(1) [OF Some this] have "imap_inv res n S (drain ?it') \<and> index (drain ?it') \<notin> S" .
    moreover from Some have "drain it = drain ?it'" by (subst drain.simps) simp
    ultimately show ?thesis by simp
  qed
qed

lemma imap_set_inv:
  assumes inv: "imap_inv res n S it" and due: "index it \<notin> S" and i: "i < n" "i \<notin> S"
  shows "imap_inv res n (insert i S) (imap_set it i (res i))
       \<and> index (imap_set it i (res i)) \<notin> insert i S"
proof (cases "index it = i")
  case True
  let ?it' = "it\<lparr> index := Suc (index it), items := items it @ [res i] \<rparr>"
  have "imap_inv res n (insert i S) ?it'"
    unfolding imap_inv_def
  proof (intro conjI allI)
    show "index ?it' \<le> n" using True i by simp
    show "insert i S \<subseteq> {..<n}" using inv i by (simp add: imap_inv_def)
    show "{..<index ?it'} \<subseteq> insert i S" using inv True by (auto simp: imap_inv_def less_Suc_eq)
    show "items ?it' = map res [0 ..< index ?it']" using inv True by (simp add: imap_inv_def)
    fix j
    show "map_of (unsorted ?it') j = (if j \<in> insert i S \<and> index ?it' \<le> j then Some (res j) else None)"
      using inv True due by (cases "j = index it") (auto simp: imap_inv_def)
  qed
  from drain_inv [OF this] True show ?thesis by (simp add: imap_set_def)
next
  case False
  let ?it' = "it\<lparr> unsorted := (i, res i) # filter (\<lambda>kv. fst kv \<noteq> i) (unsorted it) \<rparr>"
  from inv i have "\<not> i < index it" by (auto simp: imap_inv_def)
  with False have gt: "index it < i" by simp
  have "imap_inv res n (insert i S) ?it'"
    unfolding imap_inv_def
  proof (intro conjI allI)
    show "index ?it' \<le> n" using inv by (simp add: imap_inv_def)
    show "insert i S \<subseteq> {..<n}" using inv i by (simp add: imap_inv_def)
    show "{..<index ?it'} \<subseteq> insert i S" using inv by (auto simp: imap_inv_def)
    show "items ?it' = map res [0 ..< index ?it']" using inv by (simp add: imap_inv_def)
    fix j
    show "map_of (unsorted ?it') j = (if j \<in> insert i S \<and> index ?it' \<le> j then Some (res j) else None)"
      using inv gt by (auto simp: imap_inv_def map_of_filter_fst)
  qed
  with False due show ?thesis by (simp add: imap_set_def)
qed

lemma imap_fold_inv:
  assumes "imap_inv res n S it" "index it \<notin> S"
    and "distinct (map fst done)" "fst ` set done \<inter> S = {}"
    and "\<And>i task. (i, task) \<in> set done \<Longrightarrow> i < n \<and> map func task = res i"
  shows "imap_inv res n (S \<union> fst ` set done)
           (foldl (\<lambda>it (i, task). imap_set it i (map func task)) it done)
       \<and> index (foldl (\<lambda>it (i, task). imap_set it i (map func task)) it done)
           \<notin> S \<union> fst ` set done"
  using assms
proof (induction "done" arbitrary: S it)
  case Nil
  then show ?case by simp
next
  case (Cons p ps)
  obtain i task where p: "p = (i, task)" by (cases p)
  from Cons.prems(5) [of i task] p have i: "i < n" and r: "map func task = res i" by simp_all
  from Cons.prems(4) p have "i \<notin> S" by auto
  from imap_set_inv [OF Cons.prems(1,2) i this]
  have a: "imap_inv res n (insert i S) (imap_set it i (res i))"
    and b: "index (imap_set it i (res i)) \<notin> insert i S" by simp_all
  have c: "distinct (map fst ps)" using Cons.prems(3) by simp
  have d: "fst ` set ps \<inter> insert i S = {}" using Cons.prems(3,4) p by auto
  have e: "\<And>j t. (j, t) \<in> set ps \<Longrightarrow> j < n \<and> map func t = res j"
    using Cons.prems(5) by auto
  have eq: "S \<union> fst ` set (p # ps) = insert i S \<union> fst ` set ps" using p by auto
  have "foldl (\<lambda>it (i, task). imap_set it i (map func task)) it (p # ps)
      = foldl (\<lambda>it (i, task). imap_set it i (map func task)) (imap_set it i (res i)) ps"
    using p r by simp
  with Cons.IH [OF a b c d e] eq show ?case by simp
qed

lemma pool_imap_ordered:
  assumes "mset (order (enumerate 0 (chunk xs chunksize))) = mset (enumerate 0 (chunk xs chunksize))"
    and "1 \<le> chunksize"
  shows "pool_imap order func xs chunksize = map func xs"
proof -
  let ?ts = "chunk xs chunksize"
  let ?n = "length ?ts"
  let ?done = "order (enumerate 0 ?ts)"
  let ?res = "\<lambda>i. map func (?ts ! i)"
  let ?init = "\<lparr> index = 0, items = [], unsorted = [] \<rparr> :: 'b list imap_iterator"
  let ?it = "foldl (\<lambda>it (i, task). imap_set it i (map func task)) ?init ?done"
  have set_done: "set ?done = set (enumerate 0 ?ts)" using assms(1) by (rule mset_eq_setD)
  have "mset (map fst ?done) = mset (map fst (enumerate 0 ?ts))"
    using assms(1) by (metis mset_map)
  then have mfst: "mset (map fst ?done) = mset [0 ..< ?n]" by simp
  then have dist: "distinct (map fst ?done)" by (metis distinct_upt mset_eq_imp_distinct_iff)
  from mfst have keys: "fst ` set ?done = {..<?n}"
    by (metis atLeast_upt mset_eq_setD set_map)
  have inv0: "imap_inv ?res ?n {} ?init" by (simp add: imap_inv_def)
  have "imap_inv ?res ?n ({} \<union> fst ` set ?done) ?it \<and> index ?it \<notin> {} \<union> fst ` set ?done"
  proof (rule imap_fold_inv [OF inv0 _ dist])
    show "index ?init \<notin> {}" by simp
    show "fst ` set ?done \<inter> {} = {}" by simp
    fix i task assume "(i, task) \<in> set ?done"
    with set_done have "(i, task) \<in> set (enumerate 0 ?ts)" by simp
    then show "i < ?n \<and> map func task = map func (?ts ! i)"
      by (auto simp: in_set_enumerate_eq)
  qed
  with keys have inv: "imap_inv ?res ?n {..<?n} ?it" and "index ?it \<notin> {..<?n}" by simp_all
  then have "index ?it = ?n" by (auto simp: imap_inv_def)
  with inv have "items ?it = map ?res [0 ..< ?n]" by (simp add: imap_inv_def)
  also have "\<dots> = map (map func) (map ((!) ?ts) [0 ..< ?n])" by (simp add: comp_def)
  also have "\<dots> = map (map func) ?ts" by (simp only: map_nth)
  finally have "concat (items ?it) = map func (concat ?ts)" by (simp add: map_concat)
  with assms(2) show ?thesis by (simp add: pool_imap_def Let_def concat_chunk)
qed

section \<open>Worked lines\<close>

text \<open>The words "pi", "ti" and "x" under the English patterns, transcribed by the
  identity: "x" is neither a vowel nor a consonant of the inventory.\<close>

lemma syllabify_pi: "syllabify (ustr ''pi'') (\<lambda>w. w) regex_en_ipa True = ustr ''#pi#''"
  by code_simp

lemma syllabify_ti: "syllabify (ustr ''ti'') (\<lambda>w. w) regex_en_ipa True = ustr ''#ti#''"
  by code_simp

lemma syllabify_x: "syllabify (ustr ''x'') (\<lambda>w. w) regex_en_ipa True = ustr ''##''"
  by code_simp

lemma findall_pi: "findall (fst regex_en_ipa) (ustr ''pi'') \<noteq> []"
  by code_simp

text \<open>A Polish nasal vowel: the single vowel is tried first and leads nowhere, the
  special vowel of two characters is taken next.\<close>

lemma syllabify_nasal:
  "syllabify [112, 603, 771, 116] (\<lambda>w. w) regex_pol_ipa False = [112, 603, 771, 116]"
  by code_simp

text \<open>Three lines: their symbols that are no letters replaced, their words, their events.\<close>

lemma sub_line1: "regex_sub not_english (ustr '' '') (ustr ''Pi ti'') = ustr ''Pi ti''"
  by code_simp

lemma sub_line2: "regex_sub not_english (ustr '' '') (ustr ''x, pi!'') = ustr ''x  pi ''"
  by code_simp

lemma sub_line3: "regex_sub not_english (ustr '' '') (ustr ''?!'' @ [10]) = ustr ''   ''"
  by code_simp

lemma tokenize_line1: "tokenize lower_ascii (ustr ''Pi ti'') = [ustr ''pi'', ustr ''ti'']"
  by (simp add: tokenize_def lower_ascii_def strip_def isspace_def ustr_def)

lemma tokenize_line2: "tokenize lower_ascii (ustr ''x  pi '') = [ustr ''x'', ustr ''pi'']"
  by (simp add: tokenize_def lower_ascii_def strip_def isspace_def ustr_def)

lemma tokenize_line3: "tokenize lower_ascii (ustr ''   '') = []"
  by (simp add: tokenize_def lower_ascii_def strip_def isspace_def ustr_def)

lemma line1:
  "syllabify_line lower_ascii (ustr ''Pi ti'') (\<lambda>w. w) regex_en_ipa not_english True True
     = Event (ustr ''#pi#_#ti#'') (ustr ''pi_ti'')"
proof -
  have "syllables_loop [ustr ''pi'', ustr ''ti''] (\<lambda>w. w) regex_en_ipa True []
          = [ustr ''#pi#'', ustr ''#ti#'']"
    using syllabify_pi syllabify_ti by (simp add: ustr_def)
  then have "syllabify_line lower_ascii (ustr ''Pi ti'') (\<lambda>w. w) regex_en_ipa not_english True True
      = Event (join (ustr ''_'') [ustr ''#pi#'', ustr ''#ti#'']) (join (ustr ''_'') [ustr ''pi'', ustr ''ti''])"
    by (simp add: syllabify_line_def sub_line1 tokenize_line1)
  then show ?thesis by (simp add: ustr_def)
qed

lemma line2:
  "syllabify_line lower_ascii (ustr ''x, pi!'') (\<lambda>w. w) regex_en_ipa not_english True True
     = Event (ustr ''#pi#'') (ustr ''x_pi'')"
proof -
  have "syllables_loop [ustr ''x'', ustr ''pi''] (\<lambda>w. w) regex_en_ipa True [] = [ustr ''#pi#'']"
    using syllabify_x syllabify_pi by (simp add: ustr_def)
  then have "syllabify_line lower_ascii (ustr ''x, pi!'') (\<lambda>w. w) regex_en_ipa not_english True True
      = Event (join (ustr ''_'') [ustr ''#pi#'']) (join (ustr ''_'') [ustr ''x'', ustr ''pi''])"
    by (simp add: syllabify_line_def sub_line2 tokenize_line2)
  then show ?thesis by (simp add: ustr_def)
qed

lemma line3:
  "syllabify_line lower_ascii (ustr ''?!'' @ [10]) (\<lambda>w. w) regex_en_ipa not_english True True
     = Event [] []"
  by (simp add: syllabify_line_def sub_line3 tokenize_line3)

section \<open>The generator yields the lines' results in their order\<close>

lemma map_snd_enumerate_fun: "map (\<lambda>(b, c). g c) (enumerate k xs) = map g xs"
  by (induction xs arbitrary: k) simp_all

lemma generator_results:
  assumes "fair sched" and "1 \<le> numcores" and "1 \<le> chunksize"
  shows "syllabify_corpus_generator sched lower lines conv pat nsp ab ev numcores chunksize
       = Inr (map (\<lambda>line. syllabify_line lower line conv pat nsp ab ev) lines)"
proof -
  let ?f = "\<lambda>line. syllabify_line lower line conv pat nsp ab ev"
  let ?batches = "chunk lines (chunksize * numcores)"
  have ord: "pool_imap (sched b) ?f c chunksize = map ?f c" for b c
    using assms(1,3) by (intro pool_imap_ordered) (simp_all add: fair_def)
  have "concat (map (\<lambda>(b, c). pool_imap (sched b) ?f c chunksize) (enumerate 0 ?batches))
      = concat (map (\<lambda>(b, c). map ?f c) (enumerate 0 ?batches))"
    by (simp add: ord)
  also have "\<dots> = concat (map (map ?f) ?batches)"
    by (simp add: map_snd_enumerate_fun)
  also have "\<dots> = map ?f (concat ?batches)" by (simp add: map_concat)
  also have "\<dots> = map ?f lines" using assms(2,3) by (simp add: concat_chunk)
  finally show ?thesis using assms(2) by (simp add: syllabify_corpus_generator_def Let_def)
qed

lemma fair_rev: "fair (\<lambda>b tasks. rev tasks)"
  by (simp add: fair_def)

lemma fair_id: "fair (\<lambda>b tasks. tasks)"
  by (simp add: fair_def)

text \<open>
  C1. For every finite sequence of lines, every numcores and chunksize of at least 1,
  and every order in which the workers finish their tasks, the results yielded by
  \<open>syllabify_corpus_generator\<close> are the results of \<open>syllabify_line\<close> on the lines, one
  after the other: the i-th result is that of the i-th line.
\<close>

theorem generator_order_preserved:
  assumes "fair sched" and "1 \<le> numcores" and "1 \<le> chunksize"
  shows "syllabify_corpus_generator sched lower lines ipa_converter syllable_pattern
           not_symbol_pattern add_boundaries as_event numcores chunksize
       = Inr (map (\<lambda>line. syllabify_line lower line ipa_converter syllable_pattern
                              not_symbol_pattern add_boundaries as_event) lines)"
  using assms by (rule generator_results)

theorem generator_order_preserved_witness:
  "fair (\<lambda>b tasks. rev tasks :: (nat \<times> ustring list) list) \<and> (1::nat) \<le> 2 \<and> (1::nat) \<le> 1 \<and>
   syllabify_corpus_generator (\<lambda>b tasks. rev tasks) lower_ascii
     [ustr ''Pi ti'', ustr ''x, pi!'', ustr ''?!'' @ [10]]
     (\<lambda>w. w) regex_en_ipa not_english True True 2 1
   = Inr [Event (ustr ''#pi#_#ti#'') (ustr ''pi_ti''), Event (ustr ''#pi#'') (ustr ''x_pi''),
          Event [] []]"
proof -
  have two: "(1::nat) \<le> 2" and one: "(1::nat) \<le> 1" by simp_all
  from generator_order_preserved [OF fair_rev two one, of lower_ascii
      "[ustr ''Pi ti'', ustr ''x, pi!'', ustr ''?!'' @ [10]]"
      "\<lambda>w. w" regex_en_ipa not_english True True]
  show ?thesis by (simp add: fair_rev line1 line2 line3)
qed

section \<open>Boundary markers\<close>

text \<open>
  C7. For every word, transcription function and pair of patterns, the result of
  \<open>syllabify\<close> with add_boundaries true is the result with add_boundaries false with
  the character \<^verbatim>\<open>#\<close> put before and after it.
\<close>

theorem syllabify_boundaries:
  "syllabify word ipa_converter syllable_pattern True
     = ustr ''#'' @ syllabify word ipa_converter syllable_pattern False @ ustr ''#''"
  by (simp add: syllabify_def Let_def)

section \<open>The cache\<close>

lemma syllabify_cached_value:
  assumes "cache_ok st"
  shows "fst (syllabify_cached st word conv pat ab) = syllabify word conv pat ab
       \<and> cache_ok (snd (syllabify_cached st word conv pat ab))"
proof (cases "cache st (word, conv, pat, ab)")
  case None
  with assms show ?thesis
    by (auto simp: syllabify_cached_def cache_ok_def Let_def)
next
  case (Some r)
  with assms have "r = syllabify word conv pat ab" unfolding cache_ok_def by blast
  with Some assms show ?thesis by (simp add: syllabify_cached_def)
qed

lemma syllables_loop_cached_value:
  "cache_ok st \<Longrightarrow>
     fst (syllables_loop_cached st words conv pat ab syllables) = syllables_loop words conv pat ab syllables
     \<and> cache_ok (snd (syllables_loop_cached st words conv pat ab syllables))"
proof (induction words arbitrary: st syllables)
  case Nil
  then show ?case by simp
next
  case (Cons word words)
  obtain s st' where c: "syllabify_cached st word conv pat ab = (s, st')"
    by (cases "syllabify_cached st word conv pat ab")
  with syllabify_cached_value [OF Cons.prems, of word conv pat ab]
  have s: "s = syllabify word conv pat ab" and ok: "cache_ok st'" by simp_all
  from Cons.IH [OF ok] c s show ?case by (simp add: Let_def)
qed

lemma cache_ok_empty: "cache_ok \<lparr> cache = Map.empty, findall_calls = [] \<rparr>"
  by (simp add: cache_ok_def)

text \<open>
  C9. Two calls of the cached \<open>syllabify\<close> with the same word, transcription function,
  patterns and flag return the same string, and the second call runs no \<^verbatim>\<open>findall\<close>:
  its result is the value stored under the arguments, and the state is left as it was.
\<close>

theorem syllabify_cached_twice:
  assumes "syllabify_cached st word ipa_converter syllable_pattern add_boundaries = (r1, st1)"
    and "syllabify_cached st1 word ipa_converter syllable_pattern add_boundaries = (r2, st2)"
  shows "r2 = r1 \<and> st2 = st1 \<and> findall_calls st2 = findall_calls st1
       \<and> cache st1 (word, ipa_converter, syllable_pattern, add_boundaries) = Some r1"
proof (cases "cache st (word, ipa_converter, syllable_pattern, add_boundaries)")
  case None
  with assms(1) have hit: "cache st1 (word, ipa_converter, syllable_pattern, add_boundaries) = Some r1"
    by (auto simp: syllabify_cached_def Let_def)
  with assms(2) show ?thesis by (simp add: syllabify_cached_def)
next
  case (Some r)
  with assms(1) have "r1 = r" "st1 = st" by (simp_all add: syllabify_cached_def)
  with Some assms(2) show ?thesis by (simp add: syllabify_cached_def)
qed

theorem syllabify_cached_twice_witness:
  "syllabify_cached \<lparr> cache = Map.empty, findall_calls = [] \<rparr> (ustr ''pi'') (\<lambda>w. w) regex_en_ipa True
     = (ustr ''#pi#'',
        \<lparr> cache = [(ustr ''pi'', \<lambda>w. w, regex_en_ipa, True) \<mapsto> ustr ''#pi#''],
           findall_calls = [(fst regex_en_ipa, ustr ''pi'')] \<rparr>)
   \<and> syllabify_cached
        \<lparr> cache = [(ustr ''pi'', \<lambda>w. w, regex_en_ipa, True) \<mapsto> ustr ''#pi#''],
           findall_calls = [(fst regex_en_ipa, ustr ''pi'')] \<rparr> (ustr ''pi'') (\<lambda>w. w) regex_en_ipa True
     = (ustr ''#pi#'',
        \<lparr> cache = [(ustr ''pi'', \<lambda>w. w, regex_en_ipa, True) \<mapsto> ustr ''#pi#''],
           findall_calls = [(fst regex_en_ipa, ustr ''pi'')] \<rparr>)"
proof -
  let ?st1 = "\<lparr> cache = [(ustr ''pi'', \<lambda>w. w, regex_en_ipa, True) \<mapsto> ustr ''#pi#''],
                findall_calls = [(fst regex_en_ipa, ustr ''pi'')] \<rparr>"
  have first: "syllabify_cached \<lparr> cache = Map.empty, findall_calls = [] \<rparr> (ustr ''pi'') (\<lambda>w. w)
                 regex_en_ipa True = (ustr ''#pi#'', ?st1)"
    using findall_pi by (simp add: syllabify_cached_def syllabify_pi syllabify_calls_def Let_def)
  obtain r2 st2 where second: "syllabify_cached ?st1 (ustr ''pi'') (\<lambda>w. w) regex_en_ipa True = (r2, st2)"
    by (cases "syllabify_cached ?st1 (ustr ''pi'') (\<lambda>w. w) regex_en_ipa True")
  from syllabify_cached_twice [OF first second] have "r2 = ustr ''#pi#''" "st2 = ?st1" by simp_all
  with first second show ?thesis by simp
qed

section \<open>The example of the three syllables\<close>

text \<open>The patterns of \<^verbatim>\<open>regex_en_ipa\<close> are those of its pattern texts at its inventory.\<close>

lemma regex_en_ipa_for_inventory:
  "regex_en_ipa
     = regex_en_ipa_for [230, 593, 601, 603, 105, 618, 596, 117, 650, 652]
         [ustr ''aj'', ustr ''aw'', ustr ''ej'', ustr ''oj'', ustr ''ow'']
         [952, 119, 108, 109, 118, 104, 112, 609, 331, 115, 122, 98, 107, 643,
          633, 100, 110, 658, 106, 116, 240, 102, 865]"
  by (simp add: regex_en_ipa_def regex_en_ipa_for_def alternatives_def Let_def)

lemma patato_matches:
  "findall (fst (regex_en_ipa_for (ustr ''aeiou'') [] (ustr ''ptkmn''))) (ustr ''patato'')
     = [ustr ''pat'', ustr ''at'', ustr ''tat'', ustr ''at'', ustr ''to'', ustr ''o'', []]"
  by code_simp

lemma patato_syllabified:
  "syllabify (ustr ''patato'') (\<lambda>w. w) (regex_en_ipa_for (ustr ''aeiou'') [] (ustr ''ptkmn'')) True
     = ustr ''#pat_at_tat_at_to_o_#''"
  by code_simp

lemma pititu_matches:
  "findall (fst regex_en_ipa) (ustr ''pititu'') = [ustr ''pit'', ustr ''tit'', ustr ''tu'']"
  by code_simp

lemma pititu_syllabified:
  "syllabify (ustr ''pititu'') (\<lambda>w. w) regex_en_ipa True = ustr ''#pit_tit_tu#''"
  by code_simp

text \<open>
  C4, as amended.  With the vowels a, e, i, o, u, the consonants p, t, k, m, n and no
  diphthongs, the pattern texts of \<^verbatim>\<open>regex_en_ipa\<close> give a syllable pattern that finds in
  "patato" the matches "pat", "at", "tat", "at", "to", "o" and the empty string: the
  diphthongs joined from none leave an empty alternative, so a match starts at every
  position, and the consonants on both sides of a vowel belong to its match.  So
  \<open>syllabify\<close> with add_boundaries true returns "#pat_at_tat_at_to_o_#".
\<close>

theorem patato_overlapping:
  "findall (fst (regex_en_ipa_for (ustr ''aeiou'') [] (ustr ''ptkmn''))) (ustr ''patato'')
     = [ustr ''pat'', ustr ''at'', ustr ''tat'', ustr ''at'', ustr ''to'', ustr ''o'', []]
   \<and> syllabify (ustr ''patato'') (\<lambda>w. w) (regex_en_ipa_for (ustr ''aeiou'') [] (ustr ''ptkmn'')) True
     = ustr ''#pat_at_tat_at_to_o_#''"
  using patato_matches patato_syllabified by simp

text \<open>The claim as stated fails: the matches are not "pa", "ta", "to" and the result is
  not "#pa_ta_to#".\<close>

theorem patato_counterexample:
  "findall (fst (regex_en_ipa_for (ustr ''aeiou'') [] (ustr ''ptkmn''))) (ustr ''patato'')
     \<noteq> [ustr ''pa'', ustr ''ta'', ustr ''to'']
   \<and> syllabify (ustr ''patato'') (\<lambda>w. w) (regex_en_ipa_for (ustr ''aeiou'') [] (ustr ''ptkmn'')) True
     \<noteq> ustr ''#pa_ta_to#''"
  using patato_matches patato_syllabified by (simp add: ustr_def)

section \<open>Cues and outcomes of a line\<close>

lemma syllables_loop_filter:
  "syllables_loop words conv pat ab syllables
     = syllables @ filter (\<lambda>s. s \<noteq> ustr ''##'') (map (\<lambda>word. syllabify word conv pat ab) words)"
  by (induction words arbitrary: syllables) (simp_all add: Let_def)

lemma syllabify_line_as_event:
  "syllabify_line lower line conv pat nsp ab True
     = Event (join (ustr ''_'')
                (filter (\<lambda>s. s \<noteq> ustr ''##'')
                   (map (\<lambda>word. syllabify word conv pat ab)
                      (tokenize lower (regex_sub nsp (ustr '' '') line)))))
             (join (ustr ''_'') (tokenize lower (regex_sub nsp (ustr '' '') line)))"
  by (simp add: syllabify_line_def Let_def syllables_loop_filter)

text \<open>
  C2, as amended.  For every line and every transcription function, \<open>syllabify_line\<close>
  with as_event true returns as cues the syllabified words that are not "##", in the order
  of their words and joined with underscores, and as outcomes all the words of the line
  joined with underscores: a word whose syllabification is "##" is dropped from the cues
  and kept among the outcomes.
\<close>

theorem syllabify_line_event:
  "syllabify_line lower line ipa_converter syllable_pattern not_symbol_pattern add_boundaries True
     = (let words = tokenize lower (regex_sub not_symbol_pattern (ustr '' '') line);
            kept = filter (\<lambda>word. syllabify word ipa_converter syllable_pattern add_boundaries
                                     \<noteq> ustr ''##'') words
        in Event (join (ustr ''_'')
                    (map (\<lambda>word. syllabify word ipa_converter syllable_pattern add_boundaries) kept))
                 (join (ustr ''_'') words))"
  by (simp add: syllabify_line_as_event Let_def filter_map comp_def)

text \<open>The claim as stated fails on the line "x, pi!": the word "x" is syllabified to "##"
  and dropped from the cues, but stays among the outcomes, so the cues have one entry
  and the outcomes two.\<close>

theorem syllabify_line_event_counterexample:
  "syllabify (ustr ''x'') (\<lambda>w. w) regex_en_ipa True = ustr ''##''
   \<and> syllabify_line lower_ascii (ustr ''x, pi!'') (\<lambda>w. w) regex_en_ipa not_english True True
       = Event (ustr ''#pi#'') (ustr ''x_pi'')
   \<and> length (split_on 95 (ustr ''#pi#'')) = 1
   \<and> length (split_on 95 (ustr ''x_pi'')) = 2"
  by (simp add: syllabify_x line2) (simp add: ustr_def)

section \<open>The event file\<close>

lemma write_events_events:
  "write_events (map (\<lambda>line. Event (cues line) (outcomes line)) lines) outfile
     = Inr (outfile @ map (\<lambda>line. cues line @ [9] @ outcomes line @ [10]) lines)"
  by (induction lines arbitrary: outfile) simp_all

lemma corpus_written:
  assumes "fair sched" and "1 \<le> numcores" and "1 \<le> chunksize"
  shows "syllabify_corpus sched lower corpus conv pat nsp ab numcores chunksize
       = Inr (map (\<lambda>line.
                join (ustr ''_'')
                  (filter (\<lambda>s. s \<noteq> ustr ''##'')
                     (map (\<lambda>word. syllabify word conv pat ab)
                        (tokenize lower (regex_sub nsp (ustr '' '') line))))
                @ [9] @ join (ustr ''_'') (tokenize lower (regex_sub nsp (ustr '' '') line)) @ [10])
              corpus)"
  by (simp add: syllabify_corpus_def generator_results [OF assms] syllabify_line_as_event
        write_events_events)

text \<open>
  C3, as amended.  For every corpus, the pipeline writes one record for every line, in
  the order of the lines: record \<open>i\<close> of the event file is the cues of line \<open>i\<close>, a tab, the
  outcomes of line \<open>i\<close> and a newline, where cues and outcomes are the event that
  \<open>syllabify_line\<close> returns for that line.  For a line with no word left (an empty line,
  or a line of forbidden symbols only) this record is the blank one, a tab and a newline.
  No line is left out of the event file.
\<close>

theorem corpus_one_record_per_line:
  assumes "fair sched" and "1 \<le> numcores" and "1 \<le> chunksize"
  shows "\<exists>outfile.
           syllabify_corpus sched lower corpus ipa_converter syllable_pattern not_symbol_pattern
             add_boundaries numcores chunksize = Inr outfile
         \<and> length outfile = length corpus
         \<and> (\<forall>i < length corpus.
               (\<exists>cues outcomes.
                   syllabify_line lower (corpus ! i) ipa_converter syllable_pattern
                     not_symbol_pattern add_boundaries True = Event cues outcomes
                 \<and> outfile ! i = cues @ [9] @ outcomes @ [10])
             \<and> (tokenize lower (regex_sub not_symbol_pattern (ustr '' '') (corpus ! i)) = []
                  \<longrightarrow> outfile ! i = [9, 10]))"
  by (simp add: corpus_written [OF assms] syllabify_line_as_event)

theorem corpus_one_record_per_line_witness:
  "fair (\<lambda>b tasks. tasks :: (nat \<times> ustring list) list) \<and> (1::nat) \<le> 1
   \<and> tokenize lower_ascii (regex_sub not_english (ustr '' '') (ustr ''?!'' @ [10])) = []
   \<and> syllabify_corpus (\<lambda>b tasks. tasks) lower_ascii [ustr ''Pi ti'', ustr ''?!'' @ [10]]
        (\<lambda>w. w) regex_en_ipa not_english True 1 1
      = Inr [ustr ''#pi#_#ti#'' @ [9] @ ustr ''pi_ti'' @ [10], [9, 10]]"
proof -
  have one: "(1::nat) \<le> 1" by simp
  have tok: "tokenize lower_ascii (regex_sub not_english (ustr '' '') (ustr ''?!'' @ [10])) = []"
    by (simp add: sub_line3 tokenize_line3)
  from corpus_one_record_per_line [OF fair_id one one, of lower_ascii
      "[ustr ''Pi ti'', ustr ''?!'' @ [10]]" "\<lambda>w. w" regex_en_ipa not_english True]
  obtain outfile where out:
    "syllabify_corpus (\<lambda>b tasks. tasks) lower_ascii [ustr ''Pi ti'', ustr ''?!'' @ [10]]
       (\<lambda>w. w) regex_en_ipa not_english True 1 1 = Inr outfile"
    and len: "length outfile = 2"
    and recs: "\<forall>i < 2. \<exists>cues outcomes.
        syllabify_line lower_ascii ([ustr ''Pi ti'', ustr ''?!'' @ [10]] ! i) (\<lambda>w. w) regex_en_ipa
          not_english True True = Event cues outcomes
      \<and> outfile ! i = cues @ [9] @ outcomes @ [10]"
    by auto
  from recs [rule_format, of 0] have r0: "outfile ! 0 = ustr ''#pi#_#ti#'' @ [9] @ ustr ''pi_ti'' @ [10]"
    by (simp add: line1)
  from recs [rule_format, of 1] have r1: "outfile ! 1 = [9, 10]"
    by (simp add: line3)
  from len obtain a b where ab: "outfile = [a, b]"
    by (cases outfile; cases "tl outfile"; cases "tl (tl outfile)") auto
  with r0 r1 have "outfile = [ustr ''#pi#_#ti#'' @ [9] @ ustr ''pi_ti'' @ [10], [9, 10]]" by simp
  with out tok show ?thesis by (simp add: fair_id)
qed

text \<open>The claim as stated fails on a corpus of the one line "?!": no word is left of
  it, and the blank record is written for it.\<close>

theorem corpus_blank_record_counterexample:
  "tokenize lower_ascii (regex_sub not_english (ustr '' '') (ustr ''?!'' @ [10])) = []
   \<and> syllabify_corpus (\<lambda>b tasks. tasks) lower_ascii [ustr ''?!'' @ [10]]
        (\<lambda>w. w) regex_en_ipa not_english True 1 1 = Inr [[9, 10]]"
  by (simp add: sub_line3 tokenize_line3 corpus_written [OF fair_id])

section \<open>The matcher at work\<close>

lemma rx_star_class_states:
  "(p', s', g') \<in> set (rx_star_class cs (pre, suf, g)) \<Longrightarrow>
     \<exists>k \<le> length suf. p' = pre @ take k suf \<and> s' = drop k suf \<and> g' = g"
proof (induction suf arbitrary: pre)
  case Nil
  then show ?case by simp
next
  case (Cons c suf)
  from Cons.prems consider
      (more) "c \<in> set cs" "(p', s', g') \<in> set (rx_star_class cs (pre @ [c], suf, g))"
    | (stop) "(p', s', g') = (pre, c # suf, g)"
    by (auto split: if_splits)
  then show ?case
  proof cases
    case more
    from Cons.IH [OF more(2)] obtain k where
      "k \<le> length suf" "p' = (pre @ [c]) @ take k suf" "s' = drop k suf" "g' = g" by blast
    then have "Suc k \<le> length (c # suf) \<and> p' = pre @ take (Suc k) (c # suf)
        \<and> s' = drop (Suc k) (c # suf) \<and> g' = g" by simp
    then show ?thesis by blast
  next
    case stop
    then have "0 \<le> length (c # suf) \<and> p' = pre @ take 0 (c # suf)
        \<and> s' = drop 0 (c # suf) \<and> g' = g" by simp
    then show ?thesis by blast
  qed
qed

lemma rx_star_class_greedy:
  "\<exists>rest. rx_star_class cs (pre, suf, g)
     = (pre @ takeWhile (\<lambda>c. c \<in> set cs) suf, dropWhile (\<lambda>c. c \<in> set cs) suf, g) # rest"
proof (induction suf arbitrary: pre)
  case Nil
  show ?case by simp
next
  case (Cons c suf)
  show ?case
  proof (cases "c \<in> set cs")
    case True
    from Cons.IH [of "pre @ [c]"] obtain rest where
      "rx_star_class cs (pre @ [c], suf, g)
         = ((pre @ [c]) @ takeWhile (\<lambda>c. c \<in> set cs) suf, dropWhile (\<lambda>c. c \<in> set cs) suf, g) # rest"
      by blast
    with True show ?thesis by simp
  next
    case False
    then show ?thesis by simp
  qed
qed

lemma rx_lookbehind_states: "st \<in> set (rx_lookbehind r p) \<Longrightarrow> st = p"
  by (cases p) (auto simp: rx_lookbehind_def split: if_splits)

lemma rx_lookbehind_bos:
  "rx_lookbehind rx_bos (pre, suf, g) = (if pre = [] then [(pre, suf, g)] else [])"
proof (cases "pre = []")
  case True
  then show ?thesis by (simp add: rx_lookbehind_def rx_bos_def)
next
  case False
  then show ?thesis by (auto simp: rx_lookbehind_def list_ex_iff rx_bos_def)
qed

lemma rx_lookbehind_start:
  "rx_lookbehind (rx_alt (rs @ [rx_bos])) ([], suf, g) = [([], suf, g)]"
  by (simp add: rx_lookbehind_def rx_alt_def rx_bos_def)

lemma rx_seq_none: "(\<And>st. st \<in> set (r1 p) \<Longrightarrow> r2 st = []) \<Longrightarrow> rx_seq r1 r2 p = []"
  by (simp add: rx_seq_def)

lemma rx_group_none: "r p = [] \<Longrightarrow> rx_group r p = []"
  by (cases p) (simp add: rx_group_def)

lemma rx_lookahead_none: "r p = [] \<Longrightarrow> rx_lookahead r p = []"
  by (cases p) (simp add: rx_lookahead_def)

lemma rx_lit_occurs:
  assumes "rx_lit d (pre, suf, g) \<noteq> []"
  shows "sublist d (pre @ suf)"
proof -
  from assms have "take (length d) suf = d" by (auto simp: rx_lit_def split: if_splits)
  then have "pre @ suf = pre @ d @ drop (length d) suf" by (metis append_take_drop_id)
  then show ?thesis unfolding sublist_def by blast
qed

text \<open>Where no vowel and no diphthong occurs, the nucleus matches nowhere.\<close>

lemma nucleus_none:
  assumes "\<forall>c \<in> set suf. c \<notin> set vowels"
    and "\<forall>d \<in> set diphtongues. \<not> sublist d (pre @ suf)"
  shows "rx_alt (rx_class vowels # map rx_lit diphtongues) (pre, suf, g) = []"
proof -
  have "rx_class vowels (pre, suf, g) = []"
    using assms(1) by (cases suf) auto
  moreover have "rx_lit d (pre, suf, g) = []" if "d \<in> set diphtongues" for d
    using rx_lit_occurs [of d pre suf g] assms(2) that by blast
  ultimately show ?thesis by (simp add: rx_alt_def comp_def)
qed

lemma syllable_body_none:
  assumes "\<forall>c \<in> set suf. c \<notin> set vowels"
    and "\<forall>d \<in> set diphtongues. \<not> sublist d (pre @ suf)"
  shows "matcher (pattern_syllable vowels diphtongues consonants) (pre, suf, None) = []"
proof -
  let ?N = "rx_alt (rx_class vowels # map rx_lit diphtongues)"
  have onset: "rx_seq ?N (rx_star_class consonants) st = []"
    if "st \<in> set (rx_star_class consonants (pre, suf, None))" for st
  proof -
    obtain p' s' g' where st: "st = (p', s', g')" by (cases st)
    from rx_star_class_states [of p' s' g' consonants pre suf None] that st
    obtain k where k: "p' = pre @ take k suf" "s' = drop k suf" by auto
    then have "p' @ s' = pre @ suf" by simp
    moreover from k assms(1) have "\<forall>c \<in> set s'. c \<notin> set vowels"
      by (metis in_set_dropD)
    ultimately have "?N (p', s', g') = []" using assms(2) by (intro nucleus_none) simp_all
    with st show ?thesis by (simp add: rx_seq_def)
  qed
  have "rx_seq (rx_star_class consonants) (rx_seq ?N (rx_star_class consonants)) (pre, suf, None) = []"
    using onset by (rule rx_seq_none)
  then have grp: "rx_group (rx_seq (rx_star_class consonants) (rx_seq ?N (rx_star_class consonants)))
                    (pre, suf, None) = []"
    by (rule rx_group_none)
  have "rx_seq (rx_lookbehind (rx_alt (rx_class vowels # map rx_lit diphtongues @ [rx_bos])))
          (rx_seq (rx_group (rx_seq (rx_star_class consonants) (rx_seq ?N (rx_star_class consonants))))
                  (rx_alt (rx_class vowels # map rx_lit diphtongues @ [rx_eos]))) (pre, suf, None) = []"
  proof (rule rx_seq_none)
    fix st
    assume "st \<in> set (rx_lookbehind (rx_alt (rx_class vowels # map rx_lit diphtongues @ [rx_bos]))
                        (pre, suf, None))"
    then have "st = (pre, suf, None)" by (rule rx_lookbehind_states)
    with grp show "rx_seq (rx_group (rx_seq (rx_star_class consonants) (rx_seq ?N (rx_star_class consonants))))
            (rx_alt (rx_class vowels # map rx_lit diphtongues @ [rx_eos])) st = []"
      by (simp add: rx_seq_def)
  qed
  then show ?thesis by (simp add: pattern_syllable_def rx_lookahead_none)
qed

lemma scan_no_match:
  "(\<And>k. k \<le> length suf \<Longrightarrow> r (pre @ take k suf, drop k suf, None) = []) \<Longrightarrow>
     scan r pre suf adv = []"
proof (induction suf arbitrary: pre adv)
  case Nil
  from Nil [of 0] have "first_match r pre [] adv = None" by (simp add: first_match_def)
  then show ?case by (subst scan.simps) simp
next
  case (Cons c suf)
  from Cons.prems [of 0] have fm: "first_match r pre (c # suf) adv = None"
    by (simp add: first_match_def)
  have "scan r (pre @ [c]) suf False = []"
  proof (rule Cons.IH)
    fix k assume "k \<le> length suf"
    with Cons.prems [of "Suc k"] show "r ((pre @ [c]) @ take k suf, drop k suf, None) = []" by simp
  qed
  with fm show ?case by (subst scan.simps) simp
qed

lemma findall_syllable_none:
  assumes "\<forall>c \<in> set s. c \<notin> set vowels" and "\<forall>d \<in> set diphtongues. \<not> sublist d s"
  shows "findall (pattern_syllable vowels diphtongues consonants) s = []"
proof -
  have "scan (matcher (pattern_syllable vowels diphtongues consonants)) [] s False = []"
  proof (rule scan_no_match)
    fix k
    from assms(1) have "\<forall>c \<in> set (drop k s). c \<notin> set vowels" by (metis in_set_dropD)
    with assms(2)
    show "matcher (pattern_syllable vowels diphtongues consonants) ([] @ take k s, drop k s, None) = []"
      by (intro syllable_body_none) simp_all
  qed
  then show ?thesis by (simp add: findall_def finditer_def)
qed

text \<open>On a run of consonants the consonant pattern matches once, the whole run.\<close>

lemma findall_consonant_run:
  assumes "s \<noteq> []" and "set s \<subseteq> set consonants"
  shows "findall (pattern_consonant consonants) s = [s]"
proof -
  let ?r = "matcher (pattern_consonant consonants)"
  obtain c cs where s: "s = c # cs" using assms(1) by (cases s) auto
  with assms(2) have c: "c \<in> set consonants" and cs: "set cs \<subseteq> set consonants" by simp_all
  from cs have tw: "takeWhile (\<lambda>c. c \<in> set consonants) cs = cs"
    and dw: "dropWhile (\<lambda>c. c \<in> set consonants) cs = []" by auto
  from rx_star_class_greedy [of consonants "[c]" cs None] tw dw obtain rest where
    star: "rx_star_class consonants ([c], cs, None) = (c # cs, [], None) # rest" by auto
  have "\<exists>rest'. ?r ([], s, None) = (s, [], None) # rest'"
    using c star s
    by (simp add: pattern_consonant_def rx_seq_def rx_lookbehind_bos rx_plus_class_def rx_eos_def)
  then have fm: "first_match ?r [] s False = Some (length s, None)"
    by (auto simp: first_match_def)
  have "?r (s, [], None) = []"
    using assms(1) by (simp add: pattern_consonant_def rx_seq_def rx_lookbehind_bos)
  then have "first_match ?r s [] False = None" by (simp add: first_match_def)
  then have fin: "scan ?r s [] False = []" by (subst scan.simps) simp
  have "scan ?r [] s False = [(0, length s, None)]"
    using fm fin assms(1) by (subst scan.simps) simp
  then show ?thesis by (simp add: findall_def finditer_def pattern_consonant_def)
qed

lemma findall_consonant_empty: "findall (pattern_consonant consonants) [] = []"
proof -
  have "matcher (pattern_consonant consonants) ([], [], None) = []"
    by (simp add: pattern_consonant_def rx_seq_def rx_lookbehind_bos rx_plus_class_def)
  then have "first_match (matcher (pattern_consonant consonants)) [] [] False = None"
    by (simp add: first_match_def)
  then have "scan (matcher (pattern_consonant consonants)) [] [] False = []"
    by (subst scan.simps) simp
  then show ?thesis by (simp add: findall_def finditer_def)
qed

section \<open>Words without a vowel\<close>

lemma regex_en_ipa_patterns:
  "regex_en_ipa =
     (pattern_syllable [230, 593, 601, 603, 105, 618, 596, 117, 650, 652]
        [ustr ''aj'', ustr ''aw'', ustr ''ej'', ustr ''oj'', ustr ''ow'']
        [952, 119, 108, 109, 118, 104, 112, 609, 331, 115, 122, 98, 107, 643,
         633, 100, 110, 658, 106, 116, 240, 102, 865],
      pattern_consonant
        [952, 119, 108, 109, 118, 104, 112, 609, 331, 115, 122, 98, 107, 643,
         633, 100, 110, 658, 106, 116, 240, 102, 865])"
  by (simp add: regex_en_ipa_def Let_def)

text \<open>
  C6, as amended.  For every word whose transcription is not empty and is made of
  consonants of the inventory only, with no vowel and no diphthong in it, the syllable
  pattern finds nothing, the consonant pattern finds the whole transcription, and
  \<open>syllabify\<close> with add_boundaries false returns the transcription, which is not the
  empty string.  For every word and every pair of patterns, the consonant pattern is run
  exactly when the syllable pattern has found nothing.
\<close>

theorem consonant_word_fallback:
  assumes "ipa_converter word \<noteq> []"
    and "\<forall>c \<in> set (ipa_converter word). c \<in> set consonants \<and> c \<notin> set vowels"
    and "\<forall>d \<in> set diphtongues. \<not> sublist d (ipa_converter word)"
  shows "findall (pattern_syllable vowels diphtongues consonants) (ipa_converter word) = []
       \<and> findall (pattern_consonant consonants) (ipa_converter word) = [ipa_converter word]
       \<and> syllabify word ipa_converter
            (pattern_syllable vowels diphtongues consonants, pattern_consonant consonants) False
           = ipa_converter word
       \<and> syllabify word ipa_converter
            (pattern_syllable vowels diphtongues consonants, pattern_consonant consonants) False
           \<noteq> []
       \<and> syllabify_calls word' ipa_converter' (regular_pattern, consonant_pattern) add_boundaries
           = (if findall regular_pattern (ipa_converter' word') = []
              then [(regular_pattern, ipa_converter' word'), (consonant_pattern, ipa_converter' word')]
              else [(regular_pattern, ipa_converter' word')])"
proof -
  from assms(2) have "\<forall>c \<in> set (ipa_converter word). c \<notin> set vowels" by blast
  from findall_syllable_none [OF this assms(3)]
  have none: "findall (pattern_syllable vowels diphtongues consonants) (ipa_converter word) = []" .
  from assms(2) have "set (ipa_converter word) \<subseteq> set consonants" by blast
  from findall_consonant_run [OF assms(1) this]
  have run: "findall (pattern_consonant consonants) (ipa_converter word) = [ipa_converter word]" .
  from none run assms(1) show ?thesis
    by (simp add: syllabify_def syllabify_calls_def Let_def)
qed

theorem consonant_word_fallback_witness:
  "syllabify (ustr ''pst'') (\<lambda>w. w) regex_en_ipa False = ustr ''pst''
   \<and> findall (fst regex_en_ipa) (ustr ''pst'') = []
   \<and> findall (snd regex_en_ipa) (ustr ''pst'') = [ustr ''pst'']
   \<and> syllabify_calls (ustr ''pst'') (\<lambda>w. w) regex_en_ipa False
       = [(fst regex_en_ipa, ustr ''pst''), (snd regex_en_ipa, ustr ''pst'')]"
proof -
  have h1: "ustr ''pst'' \<noteq> []" by (simp add: ustr_def)
  have h2: "\<forall>c \<in> set (ustr ''pst'').
              c \<in> set [952, 119, 108, 109, 118, 104, 112, 609, 331, 115, 122, 98, 107, 643,
                        633, 100, 110, 658, 106, 116, 240, 102, 865]
              \<and> c \<notin> set [230, 593, 601, 603, 105, 618, 596, 117, 650, 652]"
    by (simp add: ustr_def)
  have h3: "\<forall>d \<in> set [ustr ''aj'', ustr ''aw'', ustr ''ej'', ustr ''oj'', ustr ''ow''].
              \<not> sublist d (ustr ''pst'')"
    by (simp add: ustr_def sublist_Cons_right)
  note inst = consonant_word_fallback [where ipa_converter = "\<lambda>w. w" and word = "ustr ''pst''"
      and vowels = "[230, 593, 601, 603, 105, 618, 596, 117, 650, 652]"
      and diphtongues = "[ustr ''aj'', ustr ''aw'', ustr ''ej'', ustr ''oj'', ustr ''ow'']"
      and consonants = "[952, 119, 108, 109, 118, 104, 112, 609, 331, 115, 122, 98, 107, 643,
        633, 100, 110, 658, 106, 116, 240, 102, 865]"
      and word' = "ustr ''pst''" and ipa_converter' = "\<lambda>w. w"
      and regular_pattern = "fst regex_en_ipa" and consonant_pattern = "snd regex_en_ipa"
      and add_boundaries = False]
  from inst [OF h1 h2 h3]
  show ?thesis by (simp add: regex_en_ipa_patterns)
qed

lemma syllabify_x_plain: "syllabify (ustr ''x'') (\<lambda>w. w) regex_en_ipa False = []"
  by code_simp

text \<open>The claim as stated fails on the transcription "x": it is not empty and has no
  vowel and no diphthong of the English inventory in it, but it is no consonant of the
  inventory either; both patterns find nothing and the result is the empty string.\<close>

theorem consonant_word_fallback_counterexample:
  "ustr ''x'' \<noteq> []
   \<and> list_all (\<lambda>c. c \<notin> set [230, 593, 601, 603, 105, 618, 596, 117, 650, 652]) (ustr ''x'')
   \<and> list_all (\<lambda>d. \<not> sublist d (ustr ''x''))
        [ustr ''aj'', ustr ''aw'', ustr ''ej'', ustr ''oj'', ustr ''ow'']
   \<and> syllabify (ustr ''x'') (\<lambda>w. w) regex_en_ipa False = []"
  using syllabify_x_plain by (simp add: ustr_def sublist_Cons_right)

section \<open>Every match is a piece of the string\<close>

lemma advances_class: "advances (rx_class cs)"
  unfolding advances_def
proof (intro allI impI)
  fix pre suf g p' s' g'
  assume "(p', s', g') \<in> set (rx_class cs (pre, suf, g))"
  then show "\<exists>t. p' = pre @ t \<and> suf = t @ s'"
    by (cases suf) (auto split: if_splits)
qed

lemma advances_lit: "advances (rx_lit d)"
  unfolding advances_def
proof (intro allI impI)
  fix pre suf g p' s' g'
  assume "(p', s', g') \<in> set (rx_lit d (pre, suf, g))"
  then have "take (length d) suf = d" "p' = pre @ d" "s' = drop (length d) suf"
    by (auto simp: rx_lit_def split: if_splits)
  then have "p' = pre @ d \<and> suf = d @ s'" by (metis append_take_drop_id)
  then show "\<exists>t. p' = pre @ t \<and> suf = t @ s'" by blast
qed

lemma advances_eos: "advances rx_eos"
  by (auto simp: advances_def rx_eos_def split: if_splits)

lemma advances_star: "advances (rx_star_class cs)"
  unfolding advances_def
proof (intro allI impI)
  fix pre suf g p' s' g'
  assume "(p', s', g') \<in> set (rx_star_class cs (pre, suf, g))"
  from rx_star_class_states [OF this] obtain k where
    "p' = pre @ take k suf" "s' = drop k suf" by blast
  then have "p' = pre @ take k suf \<and> suf = take k suf @ s'" by simp
  then show "\<exists>t. p' = pre @ t \<and> suf = t @ s'" by blast
qed

lemma advances_alt: "(\<And>r. r \<in> set rs \<Longrightarrow> advances r) \<Longrightarrow> advances (rx_alt rs)"
  unfolding advances_def rx_alt_def by fastforce

lemma advances_seq:
  assumes "advances r1" and "advances r2"
  shows "advances (rx_seq r1 r2)"
  unfolding advances_def
proof (intro allI impI)
  fix pre suf g p' s' g'
  assume "(p', s', g') \<in> set (rx_seq r1 r2 (pre, suf, g))"
  then obtain p1 s1 g1 where m: "(p1, s1, g1) \<in> set (r1 (pre, suf, g))"
    and e: "(p', s', g') \<in> set (r2 (p1, s1, g1))"
    by (auto simp: rx_seq_def)
  from assms(1) m obtain t1 where t1: "p1 = pre @ t1" "suf = t1 @ s1"
    unfolding advances_def by blast
  from assms(2) e obtain t2 where t2: "p' = p1 @ t2" "s1 = t2 @ s'"
    unfolding advances_def by blast
  from t1 t2 have "p' = pre @ (t1 @ t2) \<and> suf = (t1 @ t2) @ s'" by simp
  then show "\<exists>t. p' = pre @ t \<and> suf = t @ s'" by blast
qed

lemma advances_nucleus: "advances (rx_alt (rx_class vowels # map rx_lit diphtongues))"
  by (rule advances_alt) (auto simp: advances_class advances_lit)

lemma keeps_group_tail:
  "keeps_group (rx_alt (rx_class vowels # map rx_lit diphtongues @ [rx_eos]))"
proof -
  have "g' = g" if "(p', s', g') \<in> set (rx_class vowels (pre, suf, g))" for p' s' g' pre suf g
    using that by (cases suf) (auto split: if_splits)
  moreover have "g' = g" if "(p', s', g') \<in> set (rx_lit d (pre, suf, g))" for p' s' g' pre suf g d
    using that by (auto simp: rx_lit_def split: if_splits)
  moreover have "g' = g" if "(p', s', g') \<in> set (rx_eos (pre, suf, g))" for p' s' g' pre suf g
    using that by (auto simp: rx_eos_def split: if_splits)
  ultimately show ?thesis
    unfolding keeps_group_def rx_alt_def by fastforce
qed

lemma syllable_group_prefix:
  assumes "(p', s', g') \<in> set (matcher (pattern_syllable vowels diphtongues consonants) (pre, suf, None))"
  shows "\<exists>t. g' = Some t \<and> prefix t suf"
proof -
  let ?N = "rx_alt (rx_class vowels # map rx_lit diphtongues)"
  let ?G = "rx_seq (rx_star_class consonants) (rx_seq ?N (rx_star_class consonants))"
  let ?T = "rx_alt (rx_class vowels # map rx_lit diphtongues @ [rx_eos])"
  let ?LB = "rx_lookbehind (rx_alt (rx_class vowels # map rx_lit diphtongues @ [rx_bos]))"
  let ?body = "rx_seq ?LB (rx_seq (rx_group ?G) ?T)"
  obtain x xs where body: "?body (pre, suf, None) = x # xs" and g': "g' = snd (snd x)"
  proof (cases "?body (pre, suf, None)")
    case Nil
    with assms show ?thesis by (simp add: pattern_syllable_def rx_lookahead_def)
  next
    case (Cons x xs)
    with assms have "g' = snd (snd x)"
      by (cases x) (simp add: pattern_syllable_def rx_lookahead_def)
    with Cons that show ?thesis by blast
  qed
  then have "x \<in> set (?body (pre, suf, None))" by simp
  then obtain st0 where "st0 \<in> set (?LB (pre, suf, None))"
    and x1: "x \<in> set (rx_seq (rx_group ?G) ?T st0)"
    by (auto simp: rx_seq_def)
  then have "st0 = (pre, suf, None)" using rx_lookbehind_states by blast
  with x1 obtain st1 where st1: "st1 \<in> set (rx_group ?G (pre, suf, None))" and x2: "x \<in> set (?T st1)"
    by (auto simp: rx_seq_def)
  from st1 obtain p2 s2 g2 where G: "(p2, s2, g2) \<in> set (?G (pre, suf, None))"
    and st1_eq: "st1 = (p2, s2, Some (drop (length pre) p2))"
    by (auto simp: rx_group_def)
  have "advances ?G"
    by (intro advances_seq advances_star advances_nucleus)
  with G obtain t where t: "p2 = pre @ t" "suf = t @ s2" unfolding advances_def by blast
  obtain px sx gx where x: "x = (px, sx, gx)" by (cases x)
  with x2 st1_eq keeps_group_tail [of vowels diphtongues]
  have "gx = Some (drop (length pre) p2)" unfolding keeps_group_def by blast
  with t g' x have "g' = Some t \<and> prefix t suf" by simp
  then show ?thesis by blast
qed

lemma first_match_member:
  "first_match r pre suf adv = Some (k, g) \<Longrightarrow> \<exists>p' s'. (p', s', g) \<in> set (r (pre, suf, None))"
proof -
  assume "first_match r pre suf adv = Some (k, g)"
  then obtain p' s' rest where
    "filter (\<lambda>(pre', suf', g'). if adv then length suf' < length suf else True) (r (pre, suf, None))
       = (p', s', g) # rest"
    by (auto simp: first_match_def split: list.splits)
  then have "(p', s', g) \<in> set (filter (\<lambda>(pre', suf', g'). if adv then length suf' < length suf else True)
                                   (r (pre, suf, None)))"
    by simp
  then show ?thesis by auto
qed

lemma scan_items:
  "(b, e, g) \<in> set (scan r pre suf adv) \<Longrightarrow>
     \<exists>pre' suf' p' s'. pre' @ suf' = pre @ suf \<and> (p', s', g) \<in> set (r (pre', suf', None))"
proof (induction r pre suf adv rule: scan.induct)
  case (1 r pre suf adv)
  show ?case
  proof (cases "first_match r pre suf adv")
    case None
    show ?thesis
    proof (cases suf)
      case Nil
      with None 1(4) show ?thesis by (subst (asm) scan.simps) simp
    next
      case (Cons c cs)
      with None 1(4) have "(b, e, g) \<in> set (scan r (pre @ [c]) cs False)"
        by (subst (asm) scan.simps) simp
      from 1(1) [OF None Cons this] Cons show ?thesis by simp
    qed
  next
    case (Some x2)
    obtain k g0 where x2: "x2 = (k, g0)" by (cases x2)
    from Some x2 1(4) consider
        (head) "g = g0"
      | (tail0) "k = 0" "(b, e, g) \<in> set (scan r pre suf True)"
      | (tail) "k \<noteq> 0" "(b, e, g) \<in> set (scan r (pre @ take k suf) (drop k suf) False)"
      by (subst (asm) scan.simps) (auto split: if_splits)
    then show ?thesis
    proof cases
      case head
      with Some x2 first_match_member [of r pre suf adv k g0] show ?thesis by blast
    next
      case tail0
      from 1(2) [OF Some x2 [symmetric] tail0] show ?thesis .
    next
      case tail
      from 1(3) [OF Some x2 [symmetric] tail] show ?thesis by simp
    qed
  qed
qed

lemma syllable_matches_sublist:
  assumes "m \<in> set (findall (pattern_syllable vowels diphtongues consonants) s)"
  shows "sublist m s"
proof -
  from assms obtain b e g where it: "(b, e, g) \<in> set (scan (matcher (pattern_syllable vowels diphtongues consonants)) [] s False)"
    and m: "m = (case g of None \<Rightarrow> [] | Some t \<Rightarrow> t)"
    by (auto simp: findall_def finditer_def pattern_syllable_def)
  from scan_items [OF it] obtain pre' suf' p' s' where s: "pre' @ suf' = s"
    and "(p', s', g) \<in> set (matcher (pattern_syllable vowels diphtongues consonants) (pre', suf', None))"
    by auto
  from syllable_group_prefix [OF this(2)] obtain t where "g = Some t" "prefix t suf'" by blast
  with m s show ?thesis by (auto simp: prefix_def sublist_def)
qed
section \<open>Words with an empty transcription\<close>

lemma scan_empty_subject:
  "scan r [] [] False = [] \<or> (\<exists>g. scan r [] [] False = [(0, 0, g)])"
proof -
  have "first_match r [] [] True = None" by (simp add: first_match_def)
  then have adv: "scan r [] [] True = []" by (subst scan.simps) simp
  show ?thesis
  proof (cases "first_match r [] [] False")
    case None
    then have "scan r [] [] False = []" by (subst scan.simps) simp
    then show ?thesis by simp
  next
    case (Some x)
    obtain k g where x: "x = (k, g)" by (cases x)
    with Some have "k = 0" by (auto simp: first_match_def split: list.splits)
    with Some x adv have "scan r [] [] False = [(0, 0, g)]" by (subst scan.simps) simp
    then show ?thesis by blast
  qed
qed

lemma join_findall_syllable_empty:
  "join sep (findall (pattern_syllable vowels diphtongues consonants) []) = []"
proof -
  let ?rx = "pattern_syllable vowels diphtongues consonants"
  have sub: "m = []" if "m \<in> set (findall ?rx [])" for m
    using syllable_matches_sublist [OF that] by simp
  from scan_empty_subject [of "matcher ?rx"]
  have "findall ?rx [] = [] \<or> (\<exists>m. findall ?rx [] = [m])"
    by (auto simp: findall_def finditer_def)
  then show ?thesis
  proof
    assume "findall ?rx [] = []"
    then show ?thesis by simp
  next
    assume "\<exists>m. findall ?rx [] = [m]"
    then obtain m where m: "findall ?rx [] = [m]" by blast
    with sub [of m] show ?thesis by simp
  qed
qed

text \<open>
  C8. For every word whose transcription is the empty string, \<open>syllabify\<close> with the
  patterns of an inventory returns "##" with add_boundaries true and the empty string
  with add_boundaries false; the loop of \<open>syllabify_line\<close> with add_boundaries true adds
  nothing to the syllables for such a word, and "##" is never among the syllables of a
  line.
\<close>

theorem empty_transcription:
  assumes "ipa_converter word = []"
  shows "syllabify word ipa_converter
           (pattern_syllable vowels diphtongues consonants, pattern_consonant consonants) True
          = ustr ''##''
       \<and> syllabify word ipa_converter
           (pattern_syllable vowels diphtongues consonants, pattern_consonant consonants) False
          = []
       \<and> syllables_loop (before @ word # after) ipa_converter
           (pattern_syllable vowels diphtongues consonants, pattern_consonant consonants) True syllables
          = syllables_loop (before @ after) ipa_converter
              (pattern_syllable vowels diphtongues consonants, pattern_consonant consonants) True syllables
       \<and> ustr ''##'' \<notin> set (syllables_loop words ipa_converter' syllable_pattern add_boundaries [])"
proof -
  let ?pat = "(pattern_syllable vowels diphtongues consonants, pattern_consonant consonants)"
  have f: "syllabify word ipa_converter ?pat False = []"
    using assms join_findall_syllable_empty [of "ustr ''_''" vowels diphtongues consonants]
      findall_consonant_empty [of consonants]
    by (simp add: syllabify_def Let_def)
  have "syllabify word ipa_converter ?pat True
          = ustr ''#'' @ syllabify word ipa_converter ?pat False @ ustr ''#''"
    by (simp add: syllabify_def Let_def)
  with f have t: "syllabify word ipa_converter ?pat True = ustr ''##''" by (simp add: ustr_def)
  from t have "syllables_loop (before @ word # after) ipa_converter ?pat True syllables
      = syllables_loop (before @ after) ipa_converter ?pat True syllables"
    by (simp add: syllables_loop_filter)
  moreover have "ustr ''##'' \<notin> set (syllables_loop words ipa_converter' syllable_pattern add_boundaries [])"
    by (simp add: syllables_loop_filter)
  ultimately show ?thesis using t f by simp
qed

theorem empty_transcription_witness:
  "syllabify (ustr ''x'') (\<lambda>w. if w = ustr ''x'' then [] else w) regex_en_ipa True = ustr ''##''
   \<and> syllabify (ustr ''x'') (\<lambda>w. if w = ustr ''x'' then [] else w) regex_en_ipa False = []
   \<and> syllables_loop ([ustr ''pi''] @ ustr ''x'' # [ustr ''ti''])
        (\<lambda>w. if w = ustr ''x'' then [] else w) regex_en_ipa True []
       = syllables_loop ([ustr ''pi''] @ [ustr ''ti''])
           (\<lambda>w. if w = ustr ''x'' then [] else w) regex_en_ipa True []"
proof -
  have h: "(if ustr ''x'' = ustr ''x'' then [] else ustr ''x'') = []" by simp
  note inst = empty_transcription [where ipa_converter = "\<lambda>w. if w = ustr ''x'' then [] else w"
      and word = "ustr ''x''"
      and diphtongues = "[ustr ''aj'', ustr ''aw'', ustr ''ej'', ustr ''oj'', ustr ''ow'']"
      and vowels = "[230, 593, 601, 603, 105, 618, 596, 117, 650, 652]"
      and consonants = "[952, 119, 108, 109, 118, 104, 112, 609, 331, 115, 122, 98, 107, 643,
        633, 100, 110, 658, 106, 116, 240, 102, 865]"
      and before = "[ustr ''pi'']" and after = "[ustr ''ti'']" and syllables = "[]"
      and words = "[]"]
  from inst [OF h]
  show ?thesis by (simp only: regex_en_ipa_patterns [symmetric] simp_thms)
qed

section \<open>Where a match of the syllable pattern may start\<close>

lemma rx_seq_head:
  "ra p = x # xs \<Longrightarrow> rb x = y # ys \<Longrightarrow> \<exists>rest. rx_seq ra rb p = y # rest"
  by (simp add: rx_seq_def)

lemma lookbehind_start_ok:
  assumes "start_ok vowels pre"
  shows "rx_lookbehind (rx_alt (rx_class vowels # map rx_lit diphtongues @ [rx_bos])) (pre, suf, g)
       = [(pre, suf, g)]"
proof (cases "pre = []")
  case True
  with rx_lookbehind_start [of "rx_class vowels # map rx_lit diphtongues" suf g]
  show ?thesis by simp
next
  case False
  with assms have v: "last pre \<in> set vowels" by (simp add: start_ok_def)
  let ?k = "length pre - 1"
  from False have k: "?k \<in> set [0 ..< Suc (length pre)]" by simp
  from False have dec: "butlast pre @ [last pre] = pre" by simp
  have "take ?k pre = butlast pre" by (simp add: butlast_conv_take)
  moreover have "drop ?k pre = [last pre]" by (metis dec append_eq_conv_conj length_butlast)
  ultimately have "take ?k pre = butlast pre" "drop ?k pre = [last pre]" by simp_all
  with v False have "(pre, suf, g) \<in> set (rx_alt (rx_class vowels # map rx_lit diphtongues @ [rx_bos])
                                          (take ?k pre, drop ?k pre @ suf, g))"
    by (simp add: rx_alt_def)
  then have "list_ex (\<lambda>(pre', suf', g'). pre' = pre)
               (rx_alt (rx_class vowels # map rx_lit diphtongues @ [rx_bos])
                  (take ?k pre, drop ?k pre @ suf, g))"
    unfolding list_ex_iff by blast
  with k have "list_ex (\<lambda>k. list_ex (\<lambda>(pre', suf', g'). pre' = pre)
                 (rx_alt (rx_class vowels # map rx_lit diphtongues @ [rx_bos])
                    (take k pre, drop k pre @ suf, g))) [0 ..< Suc (length pre)]"
    unfolding list_ex_iff by blast
  then show ?thesis by (simp add: rx_lookbehind_def)
qed

lemma lookbehind_not_start:
  assumes "\<not> start_ok vowels pre" and "\<forall>d \<in> set diphtongues. \<not> suffix d pre"
  shows "rx_lookbehind (rx_alt (rx_class vowels # map rx_lit diphtongues @ [rx_bos])) (pre, suf, g) = []"
proof -
  from assms(1) have ne: "pre \<noteq> []" and nv: "last pre \<notin> set vowels" by (simp_all add: start_ok_def)
  have no: "p' \<noteq> pre"
    if "(p', s', g') \<in> set (rx_alt (rx_class vowels # map rx_lit diphtongues @ [rx_bos])
                              (take k pre, drop k pre @ suf, g))" for k p' s' g'
  proof -
    from that consider
        (cls) "(p', s', g') \<in> set (rx_class vowels (take k pre, drop k pre @ suf, g))"
      | (lit) d where "d \<in> set diphtongues" "(p', s', g') \<in> set (rx_lit d (take k pre, drop k pre @ suf, g))"
      | (bos) "(p', s', g') \<in> set (rx_bos (take k pre, drop k pre @ suf, g))"
      by (auto simp: rx_alt_def)
    then show ?thesis
    proof cases
      case cls
      then obtain c where c: "c \<in> set vowels" and p': "p' = take k pre @ [c]"
        by (cases "drop k pre @ suf") (auto split: if_splits)
      show ?thesis
      proof
        assume "p' = pre"
        with p' have "last pre = c" by (metis last_snoc)
        with c nv show False by simp
      qed
    next
      case lit
      then have "p' = take k pre @ d" by (auto simp: rx_lit_def split: if_splits)
      show ?thesis
      proof
        assume "p' = pre"
        with \<open>p' = take k pre @ d\<close> have "suffix d pre" by (metis suffixI)
        with lit(1) assms(2) show False by blast
      qed
    next
      case bos
      then have "p' = []" by (auto simp: rx_bos_def split: if_splits)
      with ne show ?thesis by simp
    qed
  qed
  have "\<not> list_ex (\<lambda>k. list_ex (\<lambda>(pre', suf', g'). pre' = pre)
                 (rx_alt (rx_class vowels # map rx_lit diphtongues @ [rx_bos])
                    (take k pre, drop k pre @ suf, g))) [0 ..< Suc (length pre)]"
    unfolding list_ex_iff using no by blast
  then show ?thesis by (simp add: rx_lookbehind_def)
qed

lemma syllable_not_start:
  assumes "\<not> start_ok vowels pre" and "\<forall>d \<in> set diphtongues. \<not> suffix d pre"
  shows "matcher (pattern_syllable vowels diphtongues consonants) (pre, suf, None) = []"
  by (simp add: pattern_syllable_def rx_lookahead_def rx_seq_def lookbehind_not_start [OF assms])

lemma scan_syllable_step:
  "scan (matcher (pattern_syllable vowels diphtongues consonants)) pre suf False
     = map (\<lambda>(p, s, g). (length pre, length pre, g))
         (matcher (pattern_syllable vowels diphtongues consonants) (pre, suf, None))
       @ (case suf of
            [] \<Rightarrow> []
          | c # cs \<Rightarrow> scan (matcher (pattern_syllable vowels diphtongues consonants)) (pre @ [c]) cs False)"
proof -
  let ?r = "matcher (pattern_syllable vowels diphtongues consonants)"
  have zw: "?r (pre, suf, None) = [] \<or> (\<exists>g. ?r (pre, suf, None) = [(pre, suf, g)])"
    by (auto simp: pattern_syllable_def rx_lookahead_def split: list.splits)
  have adv: "scan ?r pre suf True = (case suf of [] \<Rightarrow> [] | c # cs \<Rightarrow> scan ?r (pre @ [c]) cs False)"
  proof -
    from zw have "first_match ?r pre suf True = None" by (auto simp: first_match_def)
    then show ?thesis by (subst scan.simps) simp
  qed
  from zw show ?thesis
  proof
    assume none: "?r (pre, suf, None) = []"
    then have "first_match ?r pre suf False = None" by (simp add: first_match_def)
    with none show ?thesis by (subst scan.simps) simp
  next
    assume "\<exists>g. ?r (pre, suf, None) = [(pre, suf, g)]"
    then obtain g where one: "?r (pre, suf, None) = [(pre, suf, g)]" by blast
    then have "first_match ?r pre suf False = Some (0, g)" by (simp add: first_match_def)
    then have "scan ?r pre suf False = (length pre, length pre, g) # scan ?r pre suf True"
      by (subst scan.simps) simp
    with one adv show ?thesis by simp
  qed
qed

section \<open>The symbols of an inventory\<close>

lemma inventory_ok_disjoint: "inventory_ok V D C \<Longrightarrow> set V \<inter> set C = {}"
  by (simp add: inventory_ok_def)

lemma inventory_ok_diphthong:
  assumes "inventory_ok V D C" and "d \<in> set D"
  obtains a b where "d = [a, b]" and "a \<notin> set C"
    and "a \<notin> set V \<and> b \<in> set C
         \<or> a \<in> set V \<and> b \<notin> set V \<and> b \<notin> set C \<and> b \<noteq> 10 \<and> (\<forall>d' \<in> set D. hd d' \<noteq> b)"
proof -
  from assms have len: "length d = 2"
    and kinds: "hd d \<notin> set V \<and> hd d \<notin> set C \<and> last d \<in> set C
         \<or> hd d \<in> set V \<and> last d \<notin> set V \<and> last d \<notin> set C \<and> last d \<noteq> 10
             \<and> (\<forall>d' \<in> set D. hd d' \<noteq> last d)"
    by (auto simp: inventory_ok_def list_all_iff)
  from len obtain a b where d: "d = [a, b]"
    by (cases d; cases "tl d") auto
  from assms(1) have "set V \<inter> set C = {}" by (rule inventory_ok_disjoint)
  with kinds d have "a \<notin> set C" by auto
  with d kinds that show ?thesis by simp
qed

lemma diphthong_last_not_first:
  assumes ok: "inventory_ok V D C" and d: "d \<in> set D" and nv: "hd d \<notin> set V" and d': "d' \<in> set D"
  shows "last d' \<noteq> hd d"
proof -
  from inventory_ok_diphthong [OF ok d] obtain a b where da: "d = [a, b]" "a \<notin> set C" by metis
  from inventory_ok_diphthong [OF ok d'] obtain a' b' where
    d'a: "d' = [a', b']"
    and k: "a' \<notin> set V \<and> b' \<in> set C
         \<or> a' \<in> set V \<and> b' \<notin> set V \<and> b' \<notin> set C \<and> b' \<noteq> 10 \<and> (\<forall>d'' \<in> set D. hd d'' \<noteq> b')"
    by metis
  from k show ?thesis
  proof
    assume "a' \<notin> set V \<and> b' \<in> set C"
    with da d'a show ?thesis by auto
  next
    assume "a' \<in> set V \<and> b' \<notin> set V \<and> b' \<notin> set C \<and> b' \<noteq> 10 \<and> (\<forall>d'' \<in> set D. hd d'' \<noteq> b')"
    with d have "hd d \<noteq> b'" by blast
    with d'a show ?thesis by simp
  qed
qed

lemma symbol_cases:
  assumes "inventory_ok V D C" and "is_nucleus V D t \<or> is_consonant C t"
  obtains (vowel) v where "t = [v]" "v \<in> set V" "v \<notin> set C" "\<not> is_consonant C t"
    | (diphthong) "t \<in> set D" "\<not> is_consonant C t"
    | (consonant) c where "t = [c]" "c \<in> set C" "c \<notin> set V" "is_consonant C t"
proof -
  from assms(1) have dj: "set V \<inter> set C = {}" by (rule inventory_ok_disjoint)
  from assms(2) consider v where "v \<in> set V" "t = [v]" | "t \<in> set D" | c where "c \<in> set C" "t = [c]"
    by (auto simp: is_nucleus_def is_consonant_def)
  then show ?thesis
  proof cases
    case 1
    with dj have "v \<notin> set C" by blast
    with 1 vowel show ?thesis by (simp add: is_consonant_def)
  next
    case 2
    from inventory_ok_diphthong [OF assms(1) 2] obtain a b where "t = [a, b]" by metis
    then have "\<not> is_consonant C t" by (simp add: is_consonant_def)
    with 2 diphthong show ?thesis by simp
  next
    case 3
    with dj have "c \<notin> set V" by blast
    with 3 consonant show ?thesis by (simp add: is_consonant_def)
  qed
qed

lemma symbol_hd:
  assumes "inventory_ok V D C" and "is_nucleus V D t \<or> is_consonant C t"
  shows "t \<noteq> [] \<and> (is_consonant C t \<longleftrightarrow> hd t \<in> set C)
       \<and> (hd t \<in> set V \<or> hd t \<in> set C \<or> (\<exists>d \<in> set D. hd d = hd t))"
  using assms
proof (cases rule: symbol_cases)
  case (vowel v)
  then show ?thesis by simp
next
  case diphthong
  from inventory_ok_diphthong [OF assms(1) diphthong(1)] obtain a b where "t = [a, b]" "a \<notin> set C"
    by metis
  moreover from diphthong(1) have "\<exists>d \<in> set D. hd d = hd t" by blast
  ultimately show ?thesis using diphthong(2) by simp
next
  case (consonant c)
  then show ?thesis by simp
qed

lemma symbols_hd:
  assumes ok: "inventory_ok V D C"
    and sym: "\<forall>t \<in> set ts. is_nucleus V D t \<or> is_consonant C t"
    and cat: "concat ts = x # xs"
  shows "x \<in> set V \<or> x \<in> set C \<or> (\<exists>d \<in> set D. hd d = x)"
proof (cases ts)
  case Nil
  with cat show ?thesis by simp
next
  case (Cons t ts')
  with sym have "is_nucleus V D t \<or> is_consonant C t" by simp
  from symbol_hd [OF ok this] have ne: "t \<noteq> []"
    and h: "hd t \<in> set V \<or> hd t \<in> set C \<or> (\<exists>d \<in> set D. hd d = hd t)" by simp_all
  from ne cat Cons have "x = hd t" by (cases t) simp_all
  with h show ?thesis by simp
qed

lemma symbols_consonant_runs:
  assumes ok: "inventory_ok V D C"
    and sym: "\<forall>t \<in> set ts. is_nucleus V D t \<or> is_consonant C t"
  shows "takeWhile (\<lambda>c. c \<in> set C) (concat ts) = concat (takeWhile (is_consonant C) ts)
       \<and> dropWhile (\<lambda>c. c \<in> set C) (concat ts) = concat (dropWhile (is_consonant C) ts)"
  using sym
proof (induction ts)
  case Nil
  show ?case by simp
next
  case (Cons t ts)
  from Cons.prems have st: "is_nucleus V D t \<or> is_consonant C t" by simp
  from symbol_hd [OF ok st] have ne: "t \<noteq> []" and c: "is_consonant C t \<longleftrightarrow> hd t \<in> set C"
    by simp_all
  show ?case
  proof (cases "is_consonant C t")
    case True
    then obtain c where "t = [c]" "c \<in> set C" by (auto simp: is_consonant_def)
    with True Cons show ?thesis by simp
  next
    case False
    with c ne obtain x xs where "t = x # xs" "x \<notin> set C" by (cases t) auto
    with False show ?thesis by simp
  qed
qed

lemma lit_at_symbol:
  assumes ok: "inventory_ok V D C"
    and sym: "\<forall>t \<in> set (t # ts). is_nucleus V D t \<or> is_consonant C t"
    and d: "d \<in> set D"
  shows "rx_lit d (p, concat (t # ts), g) = (if t = d then [(p @ d, concat ts, g)] else [])"
proof -
  from inventory_ok_diphthong [OF ok d] obtain a b where
    da: "d = [a, b]" and aC: "a \<notin> set C"
    and k: "a \<notin> set V \<and> b \<in> set C
         \<or> a \<in> set V \<and> b \<notin> set V \<and> b \<notin> set C \<and> b \<noteq> 10 \<and> (\<forall>d' \<in> set D. hd d' \<noteq> b)"
    by metis
  from sym have st: "is_nucleus V D t \<or> is_consonant C t"
    and sts: "\<forall>t \<in> set ts. is_nucleus V D t \<or> is_consonant C t" by simp_all
  from ok st show ?thesis
  proof (cases rule: symbol_cases)
    case (vowel v)
    have "take 2 (v # concat ts) \<noteq> [a, b]"
    proof
      assume e: "take 2 (v # concat ts) = [a, b]"
      then obtain xs where cat: "concat ts = b # xs" and "v = a"
        by (cases "concat ts") simp_all
      with vowel k have "b \<notin> set V" "b \<notin> set C" "\<forall>d' \<in> set D. hd d' \<noteq> b" by auto
      with symbols_hd [OF ok sts cat] show False by blast
    qed
    with vowel da show ?thesis by (simp add: rx_lit_def)
  next
    case diphthong
    from inventory_ok_diphthong [OF ok diphthong(1)] obtain a' b' where "t = [a', b']" by metis
    with da show ?thesis by (auto simp: rx_lit_def)
  next
    case (consonant c)
    with da aC show ?thesis by (auto simp: rx_lit_def)
  qed
qed

lemma lits_head:
  "n \<in> set D \<Longrightarrow> \<exists>ys. concat (map (\<lambda>d. if n = d then [x] else []) D) = x # ys"
  by (induction D) auto

lemma lits_none:
  "n \<notin> set D \<Longrightarrow> concat (map (\<lambda>d. if n = d then [x] else []) D) = []"
  by (induction D) auto

section \<open>The matches in a string of symbols\<close>

lemma rx_seq_head_skip:
  "ra p = x0 # x # xs \<Longrightarrow> rb x0 = [] \<Longrightarrow> rb x = y # ys \<Longrightarrow> \<exists>rest. rx_seq ra rb p = y # rest"
  by (simp add: rx_seq_def)

lemma rx_seq_head_two:
  "ra p = x0 # x # xs \<Longrightarrow> rb x0 = [y0] \<Longrightarrow> rb x = y # ys \<Longrightarrow>
     \<exists>rest. rx_seq ra rb p = y0 # y # rest"
  by (simp add: rx_seq_def)

lemma rx_seq_first_two:
  "ra p = x # xs \<Longrightarrow> rb x = y0 # y # ys \<Longrightarrow> \<exists>rest. rx_seq ra rb p = y0 # y # rest"
  by (simp add: rx_seq_def)

lemma lookbehind_after_diphthong:
  assumes "d \<in> set diphtongues" and "suffix d pre"
  shows "rx_lookbehind (rx_alt (rx_class vowels # map rx_lit diphtongues @ [rx_bos])) (pre, suf, g)
       = [(pre, suf, g)]"
proof -
  from assms(2) obtain zs where pre: "pre = zs @ d" by (auto simp: suffix_def)
  let ?k = "length zs"
  have k: "?k \<in> set [0 ..< Suc (length pre)]" using pre by simp
  have "(pre, suf, g) \<in> set (rx_lit d (take ?k pre, drop ?k pre @ suf, g))"
    by (simp add: rx_lit_def pre)
  with assms(1) have "(pre, suf, g) \<in> set (rx_alt (rx_class vowels # map rx_lit diphtongues @ [rx_bos])
                                          (take ?k pre, drop ?k pre @ suf, g))"
    unfolding rx_alt_def by fastforce
  then have "list_ex (\<lambda>(pre', suf', g'). pre' = pre)
               (rx_alt (rx_class vowels # map rx_lit diphtongues @ [rx_bos])
                  (take ?k pre, drop ?k pre @ suf, g))"
    unfolding list_ex_iff by blast
  with k have "list_ex (\<lambda>k. list_ex (\<lambda>(pre', suf', g'). pre' = pre)
                 (rx_alt (rx_class vowels # map rx_lit diphtongues @ [rx_bos])
                    (take k pre, drop k pre @ suf, g))) [0 ..< Suc (length pre)]"
    unfolding list_ex_iff by blast
  then show ?thesis by (simp add: rx_lookbehind_def)
qed

text \<open>Behind the match a vowel, a diphthong or the end of the string is found, and group
  1 stays as it is.\<close>

lemma tail_found:
  assumes "suf = [] \<or> hd suf \<in> set vowels \<or> (\<exists>d \<in> set diphtongues. prefix d suf)"
  shows "\<exists>p s rest. rx_alt (rx_class vowels # map rx_lit diphtongues @ [rx_eos]) (pre, suf, g)
           = (p, s, g) # rest"
proof -
  let ?T = "rx_alt (rx_class vowels # map rx_lit diphtongues @ [rx_eos])"
  have "?T (pre, suf, g) \<noteq> []"
  proof (cases "suf = []")
    case True
    then have "rx_eos (pre, suf, g) \<noteq> []" by (simp add: rx_eos_def)
    then show ?thesis by (simp add: rx_alt_def)
  next
    case False
    with assms consider "hd suf \<in> set vowels" | d where "d \<in> set diphtongues" "prefix d suf"
      by blast
    then show ?thesis
    proof cases
      case 1
      with False have "rx_class vowels (pre, suf, g) \<noteq> []" by (cases suf) simp_all
      then show ?thesis by (simp add: rx_alt_def)
    next
      case 2
      then obtain zs where "suf = d @ zs" by (auto simp: prefix_def)
      then have "rx_lit d (pre, suf, g) \<noteq> []" by (simp add: rx_lit_def)
      with 2(1) show ?thesis by (auto simp: rx_alt_def)
    qed
  qed
  then obtain x xs where x: "?T (pre, suf, g) = x # xs" by (cases "?T (pre, suf, g)") auto
  obtain p s g' where xp: "x = (p, s, g')" by (cases x)
  with x have "(p, s, g') \<in> set (?T (pre, suf, g))" by simp
  with keeps_group_tail [of vowels diphtongues] have "g' = g" unfolding keeps_group_def by blast
  with x xp show ?thesis by blast
qed

text \<open>Where the nucleus matches behind no run of consonants, the pattern does not match.\<close>

lemma syllable_no_nucleus:
  assumes "\<And>k. k \<le> length suf \<Longrightarrow>
     rx_alt (rx_class vowels # map rx_lit diphtongues) (pre @ take k suf, drop k suf, None) = []"
  shows "matcher (pattern_syllable vowels diphtongues consonants) (pre, suf, None) = []"
proof -
  let ?N = "rx_alt (rx_class vowels # map rx_lit diphtongues)"
  have onset: "rx_seq ?N (rx_star_class consonants) st = []"
    if "st \<in> set (rx_star_class consonants (pre, suf, None))" for st
  proof -
    obtain p' s' g' where st: "st = (p', s', g')" by (cases st)
    from rx_star_class_states [of p' s' g' consonants pre suf None] that st
    obtain k where k: "k \<le> length suf" "p' = pre @ take k suf" "s' = drop k suf" "g' = None" by auto
    with assms [of k] have "?N (p', s', g') = []" by simp
    with st show ?thesis by (simp add: rx_seq_def)
  qed
  have "rx_seq (rx_star_class consonants) (rx_seq ?N (rx_star_class consonants)) (pre, suf, None) = []"
    using onset by (rule rx_seq_none)
  then have grp: "rx_group (rx_seq (rx_star_class consonants) (rx_seq ?N (rx_star_class consonants)))
                    (pre, suf, None) = []"
    by (rule rx_group_none)
  have "rx_seq (rx_lookbehind (rx_alt (rx_class vowels # map rx_lit diphtongues @ [rx_bos])))
          (rx_seq (rx_group (rx_seq (rx_star_class consonants) (rx_seq ?N (rx_star_class consonants))))
                  (rx_alt (rx_class vowels # map rx_lit diphtongues @ [rx_eos]))) (pre, suf, None) = []"
  proof (rule rx_seq_none)
    fix st
    assume "st \<in> set (rx_lookbehind (rx_alt (rx_class vowels # map rx_lit diphtongues @ [rx_bos]))
                        (pre, suf, None))"
    then have "st = (pre, suf, None)" by (rule rx_lookbehind_states)
    with grp show "rx_seq (rx_group (rx_seq (rx_star_class consonants) (rx_seq ?N (rx_star_class consonants))))
            (rx_alt (rx_class vowels # map rx_lit diphtongues @ [rx_eos])) st = []"
      by (simp add: rx_seq_def)
  qed
  then show ?thesis by (simp add: pattern_syllable_def rx_lookahead_none)
qed

lemma syllable_consonants_none:
  assumes ok: "inventory_ok V D C" and cons: "set suf \<subseteq> set C"
  shows "matcher (pattern_syllable V D C) (pre, suf, None) = []"
proof (rule syllable_no_nucleus)
  fix k
  let ?s = "drop k suf"
  from cons have sub: "set ?s \<subseteq> set C" by (meson in_set_dropD subset_iff)
  from ok have dj: "set V \<inter> set C = {}" by (rule inventory_ok_disjoint)
  have "rx_class V (pre @ take k suf, ?s, None) = []"
    using sub dj by (cases ?s) auto
  moreover have "rx_lit d (pre @ take k suf, ?s, None) = []" if d: "d \<in> set D" for d
  proof -
    from inventory_ok_diphthong [OF ok d] obtain a b where da: "d = [a, b]" "a \<notin> set C" by metis
    have "take (length d) ?s \<noteq> d"
    proof
      assume "take (length d) ?s = d"
      with da have "a \<in> set (take (length d) ?s)" by simp
      then have "a \<in> set ?s" by (rule in_set_takeD)
      with sub da show False by blast
    qed
    then show ?thesis by (simp add: rx_lit_def)
  qed
  ultimately show "rx_alt (rx_class V # map rx_lit D) (pre @ take k suf, ?s, None) = []"
    by (simp add: rx_alt_def comp_def)
qed

text \<open>Between the vowel and the mark of a diphthong of the second kind no match starts.\<close>

lemma syllable_mark_none:
  assumes ok: "inventory_ok V D C"
    and b: "b \<notin> set V" "b \<notin> set C" "\<forall>d \<in> set D. hd d \<noteq> b"
  shows "matcher (pattern_syllable V D C) (pre, b # s, None) = []"
proof -
  let ?N = "rx_alt (rx_class V # map rx_lit D)"
  have star: "rx_star_class C (pre, b # s, None) = [(pre, b # s, None)]" using b by simp
  have "rx_lit d (pre, b # s, None) = []" if d: "d \<in> set D" for d
  proof -
    from inventory_ok_diphthong [OF ok d] obtain a' b' where da: "d = [a', b']" by metis
    with d b(3) have "a' \<noteq> b" by auto
    with da show ?thesis by (auto simp: rx_lit_def)
  qed
  with b(1) have n: "?N (pre, b # s, None) = []" by (simp add: rx_alt_def comp_def)
  have "rx_seq (rx_star_class C) (rx_seq ?N (rx_star_class C)) (pre, b # s, None) = []"
    using b(2) by (simp add: rx_seq_def n)
  then have grp: "rx_group (rx_seq (rx_star_class C) (rx_seq ?N (rx_star_class C))) (pre, b # s, None) = []"
    by (rule rx_group_none)
  have "rx_seq (rx_lookbehind (rx_alt (rx_class V # map rx_lit D @ [rx_bos])))
          (rx_seq (rx_group (rx_seq (rx_star_class C) (rx_seq ?N (rx_star_class C))))
                  (rx_alt (rx_class V # map rx_lit D @ [rx_eos]))) (pre, b # s, None) = []"
  proof (rule rx_seq_none)
    fix st
    assume "st \<in> set (rx_lookbehind (rx_alt (rx_class V # map rx_lit D @ [rx_bos])) (pre, b # s, None))"
    then have "st = (pre, b # s, None)" by (rule rx_lookbehind_states)
    with grp show "rx_seq (rx_group (rx_seq (rx_star_class C) (rx_seq ?N (rx_star_class C))))
            (rx_alt (rx_class V # map rx_lit D @ [rx_eos])) st = []"
      by (simp add: rx_seq_def)
  qed
  then show ?thesis by (simp add: pattern_syllable_def rx_lookahead_none)
qed

text \<open>Nor between the two characters of a diphthong of the first kind: the first
  character is no vowel, and no diphthong ends with it.\<close>

lemma syllable_inside_none:
  assumes ok: "inventory_ok V D C" and d: "d \<in> set D" and nv: "hd d \<notin> set V"
  shows "matcher (pattern_syllable V D C) (pre @ [hd d], suf, None) = []"
proof (rule syllable_not_start)
  show "\<not> start_ok V (pre @ [hd d])" using nv by (simp add: start_ok_def)
  show "\<forall>d' \<in> set D. \<not> suffix d' (pre @ [hd d])"
  proof
    fix d' assume d': "d' \<in> set D"
    from inventory_ok_diphthong [OF ok d'] obtain a' b' where da: "d' = [a', b']" by metis
    from diphthong_last_not_first [OF ok d nv d'] da have "b' \<noteq> hd d" by simp
    show "\<not> suffix d' (pre @ [hd d])"
    proof
      assume "suffix d' (pre @ [hd d])"
      then obtain zs where "pre @ [hd d] = zs @ [a', b']" using da by (auto simp: suffix_def)
      then have "pre @ [hd d] = (zs @ [a']) @ [b']" by simp
      then have "hd d = b'" by (metis last_snoc)
      with \<open>b' \<noteq> hd d\<close> show False by simp
    qed
  qed
qed

text \<open>Behind a consonant that no nucleus ends with no match starts.\<close>

lemma syllable_behind_consonant_none:
  assumes ok: "inventory_ok V D C"
    and sym: "\<forall>t \<in> set ts. is_nucleus V D t \<or> is_consonant C t"
    and c: "c \<in> set C"
  shows "matcher (pattern_syllable V D C) (concat ts @ [c], suf, None) = []"
proof (rule syllable_not_start)
  from ok have dj: "set V \<inter> set C = {}" by (rule inventory_ok_disjoint)
  with c show "\<not> start_ok V (concat ts @ [c])" by (auto simp: start_ok_def)
  show "\<forall>d \<in> set D. \<not> suffix d (concat ts @ [c])"
  proof
    fix d assume d: "d \<in> set D"
    from inventory_ok_diphthong [OF ok d] obtain a b where
      da: "d = [a, b]" and aC: "a \<notin> set C"
      and k: "a \<notin> set V \<and> b \<in> set C
           \<or> a \<in> set V \<and> b \<notin> set V \<and> b \<notin> set C \<and> b \<noteq> 10 \<and> (\<forall>d' \<in> set D. hd d' \<noteq> b)"
      by metis
    show "\<not> suffix d (concat ts @ [c])"
    proof
      assume "suffix d (concat ts @ [c])"
      then obtain zs where z: "concat ts @ [c] = zs @ [a, b]" using da by (auto simp: suffix_def)
      then have "concat ts @ [c] = (zs @ [a]) @ [b]" by simp
      then have bc: "b = c" and cat: "concat ts = zs @ [a]" by simp_all
      with k c have aV: "a \<notin> set V" by auto
      from cat have "concat ts \<noteq> []" by simp
      then have "ts \<noteq> []" by auto
      have "\<exists>t \<in> set ts. t \<noteq> [] \<and> last t = a"
        using sym cat
      proof (induction ts arbitrary: zs rule: rev_induct)
        case Nil
        then show ?case by simp
      next
        case (snoc t ts)
        from snoc.prems(1) have "is_nucleus V D t \<or> is_consonant C t" by simp
        from symbol_hd [OF ok this] have "t \<noteq> []" by simp
        with snoc.prems(2) have "last t = a" by (metis concat_append concat.simps(2) concat.simps(1) append_Nil2 last_appendR last_snoc)
        with \<open>t \<noteq> []\<close> show ?case by auto
      qed
      then obtain t where t: "t \<in> set ts" "t \<noteq> []" "last t = a" by blast
      with sym have "is_nucleus V D t \<or> is_consonant C t" by blast
      with ok show False
      proof (cases rule: symbol_cases)
        case (vowel v)
        with t aV show ?thesis by simp
      next
        case diphthong
        from diphthong_last_not_first [OF ok d _ diphthong(1)] aV da t show ?thesis by simp
      next
        case (consonant c')
        with t aC show ?thesis by simp
      qed
    qed
  qed
qed

text \<open>
  At the start of the string and behind a nucleus: the consonants up to the next nucleus,
  that nucleus, and the consonants after it.  For a diphthong whose first character is a
  vowel, that vowel alone is tried first and given up, because the mark follows it.
\<close>

lemma syllable_at_symbol_start:
  assumes ok: "inventory_ok V D C"
    and sym: "\<forall>t \<in> set ts. is_nucleus V D t \<or> is_consonant C t"
    and start: "start_ok V pre \<or> (\<exists>d \<in> set D. suffix d pre)"
  shows "matcher (pattern_syllable V D C) (pre, concat ts, None)
       = (case dropWhile (is_consonant C) ts of
            [] \<Rightarrow> []
          | n # rest \<Rightarrow>
              [(pre, concat ts, Some (concat (takeWhile (is_consonant C) ts) @ n
                                        @ concat (takeWhile (is_consonant C) rest)))])"
proof (cases "dropWhile (is_consonant C) ts")
  case Nil
  then have "\<forall>t \<in> set ts. is_consonant C t" by (simp add: dropWhile_eq_Nil_conv)
  then have "set (concat ts) \<subseteq> set C" by (auto simp: is_consonant_def)
  from syllable_consonants_none [OF ok this]
  have m: "matcher (pattern_syllable V D C) (pre, concat ts, None) = []" .
  show ?thesis unfolding m Nil by simp
next
  case (Cons n rest)
  let ?N = "rx_alt (rx_class V # map rx_lit D)"
  let ?S = "rx_star_class C"
  let ?G = "rx_seq ?S (rx_seq ?N ?S)"
  let ?T = "rx_alt (rx_class V # map rx_lit D @ [rx_eos])"
  let ?LB = "rx_lookbehind (rx_alt (rx_class V # map rx_lit D @ [rx_bos]))"
  let ?onset = "concat (takeWhile (is_consonant C) ts)"
  let ?coda = "concat (takeWhile (is_consonant C) rest)"
  let ?after = "concat (dropWhile (is_consonant C) rest)"
  let ?t = "?onset @ n @ ?coda"
  let ?suf = "concat ts"
  let ?whole = "(pre @ ?onset @ n, concat rest, None :: ustring option)"
  have ts: "ts = takeWhile (is_consonant C) ts @ n # rest"
    using Cons by (metis takeWhile_dropWhile_id)
  then have nin: "n \<in> set ts" and rin: "set rest \<subseteq> set ts"
    by (metis in_set_conv_decomp, metis Un_iff list.set_intros(2) set_append subsetI)
  from Cons have nC: "\<not> is_consonant C n" by (metis hd_dropWhile list.sel(1) list.distinct(1))
  from sym nin have nsym: "is_nucleus V D n \<or> is_consonant C n" by blast
  from sym rin have rsym: "\<forall>t \<in> set rest. is_nucleus V D t \<or> is_consonant C t" by blast
  from rsym nsym have nrsym: "\<forall>t \<in> set (n # rest). is_nucleus V D t \<or> is_consonant C t" by simp
  from symbols_consonant_runs [OF ok sym] Cons
  have tw: "takeWhile (\<lambda>c. c \<in> set C) ?suf = ?onset"
    and dw: "dropWhile (\<lambda>c. c \<in> set C) ?suf = n @ concat rest" by simp_all
  from symbols_consonant_runs [OF ok rsym]
  have tw': "takeWhile (\<lambda>c. c \<in> set C) (concat rest) = ?coda"
    and dw': "dropWhile (\<lambda>c. c \<in> set C) (concat rest) = ?after" by simp_all
  from rx_star_class_greedy [of C pre ?suf None] tw dw obtain r1 where
    s1: "?S (pre, ?suf, None) = (pre @ ?onset, n @ concat rest, None) # r1" by auto
  from rx_star_class_greedy [of C "pre @ ?onset @ n" "concat rest" None] tw' dw' obtain r3 where
    s3: "?S (pre @ ?onset @ n, concat rest, None) = (pre @ ?t, ?after, None) # r3" by auto
  have after: "?after = [] \<or> hd ?after \<in> set V \<or> (\<exists>d \<in> set D. prefix d ?after)"
  proof (cases "dropWhile (is_consonant C) rest")
    case Nil
    show ?thesis unfolding Nil by simp
  next
    case (Cons n' rest')
    then have "\<not> is_consonant C n'" by (metis hd_dropWhile list.sel(1) list.distinct(1))
    moreover have "n' \<in> set rest" using Cons by (metis list.set_intros(1) set_dropWhileD)
    ultimately have "is_nucleus V D n'" using rsym by blast
    then consider v where "v \<in> set V" "n' = [v]" | "n' \<in> set D" by (auto simp: is_nucleus_def)
    then show ?thesis
    proof cases
      case 1
      show ?thesis unfolding Cons using 1 by simp
    next
      case 2
      have "prefix n' (concat (n' # rest'))" by simp
      with 2 show ?thesis unfolding Cons by blast
    qed
  qed
  from tail_found [OF this, of "pre @ ?t" "Some ?t"] obtain p s r7 where
    s7: "?T (pre @ ?t, ?after, Some ?t) = (p, s, Some ?t) # r7" by blast
  have lits: "concat (map (\<lambda>r. r (pre @ ?onset, n @ concat rest, None)) (map rx_lit D))
                = concat (map (\<lambda>d. if n = d then [(pre @ ?onset @ n, concat rest, None)] else []) D)"
  proof -
    have "rx_lit d (pre @ ?onset, n @ concat rest, None)
            = (if n = d then [(pre @ ?onset @ n, concat rest, None)] else [])"
      if "d \<in> set D" for d
      using lit_at_symbol [OF ok nrsym that, of "pre @ ?onset" None] by auto
    then show ?thesis by (simp add: comp_def cong: map_cong)
  qed
  have nuc: "?N (pre @ ?onset, n @ concat rest, None)
               = rx_class V (pre @ ?onset, n @ concat rest, None)
                 @ concat (map (\<lambda>d. if n = d then [(pre @ ?onset @ n, concat rest, None)] else []) D)"
    using lits by (simp add: rx_alt_def)
  have "\<exists>r8. rx_seq (rx_group ?G) ?T (pre, ?suf, None) = (p, s, Some ?t) # r8"
  proof -
    from ok nsym consider
        (vowel) v where "n = [v]" "v \<in> set V"
      | (first) a b where "n \<in> set D" "n = [a, b]" "a \<notin> set V"
      | (second) a b where "n \<in> set D" "n = [a, b]" "a \<in> set V" "b \<notin> set V" "b \<notin> set C" "b \<noteq> 10"
          "\<forall>d' \<in> set D. hd d' \<noteq> b"
    proof (cases rule: symbol_cases)
      case (vowel v)
      with that(1) show ?thesis by blast
    next
      case diphthong
      from inventory_ok_diphthong [OF ok diphthong(1)] obtain a b where
        "n = [a, b]"
        "a \<notin> set V \<and> b \<in> set C
           \<or> a \<in> set V \<and> b \<notin> set V \<and> b \<notin> set C \<and> b \<noteq> 10 \<and> (\<forall>d' \<in> set D. hd d' \<noteq> b)"
        by metis
      with diphthong(1) that(2,3) show ?thesis by blast
    next
      case (consonant c)
      with nC show ?thesis by simp
    qed
    then show ?thesis
    proof cases
      case vowel
      from inventory_ok_diphthong [OF ok] vowel(1) have "n \<notin> set D" by (metis list.inject list.distinct(1))
      with nuc vowel lits_none [of n D]
      have s2: "?N (pre @ ?onset, n @ concat rest, None) = [(pre @ ?onset @ n, concat rest, None)]"
        by simp
      from rx_seq_head [of ?N _ _ _ ?S, OF s2 s3] obtain r4 where
        s4: "rx_seq ?N ?S (pre @ ?onset, n @ concat rest, None) = (pre @ ?t, ?after, None) # r4"
        by blast
      from rx_seq_head [of ?S _ _ _ "rx_seq ?N ?S", OF s1 s4] obtain r5 where
        "?G (pre, ?suf, None) = (pre @ ?t, ?after, None) # r5" by blast
      then obtain r6 where
        s6: "rx_group ?G (pre, ?suf, None) = (pre @ ?t, ?after, Some ?t) # r6"
        by (simp add: rx_group_def)
      from rx_seq_head [of "rx_group ?G" _ _ _ ?T, OF s6 s7] show ?thesis .
    next
      case first
      from lits_head [OF first(1), of ?whole] obtain ys where
        "concat (map (\<lambda>d. if n = d then [?whole] else []) D) = ?whole # ys" by blast
      with nuc first
      have s2: "?N (pre @ ?onset, n @ concat rest, None) = (pre @ ?onset @ n, concat rest, None) # ys"
        by simp
      from rx_seq_head [of ?N _ _ _ ?S, OF s2 s3] obtain r4 where
        s4: "rx_seq ?N ?S (pre @ ?onset, n @ concat rest, None) = (pre @ ?t, ?after, None) # r4"
        by blast
      from rx_seq_head [of ?S _ _ _ "rx_seq ?N ?S", OF s1 s4] obtain r5 where
        "?G (pre, ?suf, None) = (pre @ ?t, ?after, None) # r5" by blast
      then obtain r6 where
        s6: "rx_group ?G (pre, ?suf, None) = (pre @ ?t, ?after, Some ?t) # r6"
        by (simp add: rx_group_def)
      from rx_seq_head [of "rx_group ?G" _ _ _ ?T, OF s6 s7] show ?thesis .
    next
      case second
      let ?half = "((pre @ ?onset) @ [a], b # concat rest, None :: ustring option)"
      from lits_head [OF second(1), of ?whole] obtain ys where
        "concat (map (\<lambda>d. if n = d then [?whole] else []) D) = ?whole # ys" by blast
      with nuc second
      have s2: "?N (pre @ ?onset, n @ concat rest, None)
                  = ?half # (pre @ ?onset @ n, concat rest, None) # ys"
        by simp
      have s0: "?S ?half = [?half]" using second(5) by simp
      from rx_seq_head_two [of ?N _ _ _ _ ?S, OF s2 s0 s3] obtain r4 where
        s4: "rx_seq ?N ?S (pre @ ?onset, n @ concat rest, None) = ?half # (pre @ ?t, ?after, None) # r4"
        by blast
      from rx_seq_first_two [of ?S _ _ _ "rx_seq ?N ?S", OF s1 s4] obtain r5 where
        "?G (pre, ?suf, None) = ?half # (pre @ ?t, ?after, None) # r5" by blast
      then obtain r6 where
        s6: "rx_group ?G (pre, ?suf, None)
               = ((pre @ ?onset) @ [a], b # concat rest, Some (?onset @ [a]))
                 # (pre @ ?t, ?after, Some ?t) # r6"
        by (simp add: rx_group_def)
      have "rx_lit d ((pre @ ?onset) @ [a], b # concat rest, Some (?onset @ [a])) = []"
        if d: "d \<in> set D" for d
      proof -
        from inventory_ok_diphthong [OF ok d] obtain a' b' where da: "d = [a', b']" by metis
        with d second(7) have "a' \<noteq> b" by auto
        with da show ?thesis by (auto simp: rx_lit_def)
      qed
      with second(4,6)
      have s8: "?T ((pre @ ?onset) @ [a], b # concat rest, Some (?onset @ [a])) = []"
        by (simp add: rx_alt_def comp_def rx_eos_def)
      from rx_seq_head_skip [of "rx_group ?G" _ _ _ _ ?T, OF s6 s8 s7] show ?thesis .
    qed
  qed
  then obtain r8 where body: "rx_seq (rx_group ?G) ?T (pre, ?suf, None) = (p, s, Some ?t) # r8"
    by blast
  have lb: "?LB (pre, ?suf, None) = [(pre, ?suf, None)]"
    using start lookbehind_start_ok [of V pre D ?suf None]
      lookbehind_after_diphthong [of _ D pre V ?suf None] by blast
  from body Cons show ?thesis
    by (simp add: pattern_syllable_def rx_lookahead_def rx_seq_def lb)
qed

text \<open>The scan passes over a symbol: a match may start in front of it, and none starts
  inside it.\<close>

lemma scan_over_symbol:
  assumes ok: "inventory_ok V D C" and sym: "is_nucleus V D t \<or> is_consonant C t"
  shows "scan (matcher (pattern_syllable V D C)) pre (t @ suf) False
       = map (\<lambda>(p, s, g). (length pre, length pre, g))
           (matcher (pattern_syllable V D C) (pre, t @ suf, None))
         @ scan (matcher (pattern_syllable V D C)) (pre @ t) suf False"
proof -
  let ?r = "matcher (pattern_syllable V D C)"
  have one: "scan ?r pre ([x] @ suf) False
       = map (\<lambda>(p, s, g). (length pre, length pre, g)) (?r (pre, [x] @ suf, None))
         @ scan ?r (pre @ [x]) suf False" for x
    by (subst scan_syllable_step) simp
  from ok sym show ?thesis
  proof (cases rule: symbol_cases)
    case (vowel v)
    with one show ?thesis by simp
  next
    case (consonant c)
    with one show ?thesis by simp
  next
    case diphthong
    from inventory_ok_diphthong [OF ok diphthong(1)] obtain a b where
      t: "t = [a, b]"
      and k: "a \<notin> set V \<and> b \<in> set C
           \<or> a \<in> set V \<and> b \<notin> set V \<and> b \<notin> set C \<and> b \<noteq> 10 \<and> (\<forall>d' \<in> set D. hd d' \<noteq> b)"
      by metis
    have inside: "?r (pre @ [a], b # suf, None) = []"
    proof (cases "a \<in> set V")
      case False
      with syllable_inside_none [OF ok diphthong(1), of pre "b # suf"] t show ?thesis by simp
    next
      case True
      with k have "b \<notin> set V" "b \<notin> set C" "\<forall>d' \<in> set D. hd d' \<noteq> b" by auto
      from syllable_mark_none [OF ok this] show ?thesis .
    qed
    have "scan ?r pre (a # b # suf) False
        = map (\<lambda>(p, s, g). (length pre, length pre, g)) (?r (pre, a # b # suf, None))
          @ scan ?r (pre @ [a]) (b # suf) False"
      by (subst scan_syllable_step) simp
    also have "scan ?r (pre @ [a]) (b # suf) False = scan ?r ((pre @ [a]) @ [b]) suf False"
      by (subst scan_syllable_step) (simp add: inside)
    finally show ?thesis using t by simp
  qed
qed

lemma findall_symbols_scan:
  assumes ok: "inventory_ok V D C"
    and sym: "\<forall>t \<in> set (done @ todo). is_nucleus V D t \<or> is_consonant C t"
  shows "map (\<lambda>(b, e, g). case g of None \<Rightarrow> [] | Some t \<Rightarrow> t)
           (scan (matcher (pattern_syllable V D C)) (concat done) (concat todo) False)
       = (if done = [] \<or> \<not> is_consonant C (last done) then syllables_of_symbols C todo
          else syllables_of_symbols C (drop 1 (dropWhile (is_consonant C) todo)))"
  using sym
proof (induction todo arbitrary: "done")
  case Nil
  let ?r = "matcher (pattern_syllable V D C)"
  have "?r (concat done, [], None) = []"
    using syllable_consonants_none [OF ok, of "[]"] by simp
  then have "scan ?r (concat done) [] False = []" by (simp add: scan_syllable_step)
  then show ?case by (simp add: syllables_of_symbols.simps)
next
  case (Cons t todo)
  let ?r = "matcher (pattern_syllable V D C)"
  let ?isC = "is_consonant C"
  let ?grp = "\<lambda>(b :: nat, e :: nat, g). case g of None \<Rightarrow> [] | Some t \<Rightarrow> (t :: ustring)"
  let ?pre = "concat done"
  from Cons.prems have tsym: "is_nucleus V D t \<or> is_consonant C t"
    and dsym: "\<forall>t \<in> set done. is_nucleus V D t \<or> is_consonant C t"
    and tdsym: "\<forall>t \<in> set (t # todo). is_nucleus V D t \<or> is_consonant C t" by simp_all
  have step: "map ?grp (scan ?r ?pre (concat (t # todo)) False)
                = map ?grp (map (\<lambda>(p, s, g). (length ?pre, length ?pre, g))
                              (?r (?pre, concat (t # todo), None)))
                  @ map ?grp (scan ?r (concat (done @ [t])) (concat todo) False)"
    using scan_over_symbol [OF ok tsym, of ?pre "concat todo"] by simp
  have IH: "map ?grp (scan ?r (concat (done @ [t])) (concat todo) False)
              = (if \<not> ?isC t then syllables_of_symbols C todo
                 else syllables_of_symbols C (drop 1 (dropWhile ?isC todo)))"
    using Cons.IH [of "done @ [t]"] Cons.prems by simp
  show ?case
  proof (cases "done = [] \<or> \<not> ?isC (last done)")
    case True
    have "start_ok V ?pre \<or> (\<exists>d \<in> set D. suffix d ?pre)"
    proof (cases "done = []")
      case True
      then show ?thesis by (simp add: start_ok_def)
    next
      case False
      with True have nc: "\<not> ?isC (last done)" by simp
      from False have dec: "done = butlast done @ [last done]" by simp
      from False dsym have "is_nucleus V D (last done) \<or> is_consonant C (last done)" by simp
      with nc have "is_nucleus V D (last done)" by simp
      then consider v where "v \<in> set V" "last done = [v]" | "last done \<in> set D"
        by (auto simp: is_nucleus_def)
      then show ?thesis
      proof cases
        case 1
        have "?pre = concat (butlast done) @ [v]" by (subst dec) (simp add: 1)
        with 1(1) show ?thesis by (simp add: start_ok_def)
      next
        case 2
        have "?pre = concat (butlast done) @ last done" by (subst dec) simp
        then have "suffix (last done) ?pre" by (metis suffixI)
        with 2 show ?thesis by blast
      qed
    qed
    from syllable_at_symbol_start [OF ok tdsym this]
    have m: "?r (?pre, concat (t # todo), None)
        = (case dropWhile ?isC (t # todo) of
             [] \<Rightarrow> []
           | n # rest \<Rightarrow> [(?pre, concat (t # todo),
                Some (concat (takeWhile ?isC (t # todo)) @ n @ concat (takeWhile ?isC rest)))])" .
    show ?thesis
    proof (cases "?isC t")
      case False
      with True step IH m show ?thesis
        by (subst syllables_of_symbols.simps) simp
    next
      case inC: True
      show ?thesis
      proof (cases "dropWhile ?isC todo")
        case Nil
        with inC True step IH m show ?thesis
          by (subst syllables_of_symbols.simps)
            (simp add: syllables_of_symbols.simps [of _ "[]"] del: dropWhile_eq_Nil_conv)
      next
        case (Cons n rest)
        with inC True step IH m show ?thesis
          by (subst syllables_of_symbols.simps) simp
      qed
    qed
  next
    case False
    then have ne: "done \<noteq> []" and lc: "?isC (last done)" by simp_all
    then obtain c where c: "c \<in> set C" "last done = [c]" by (auto simp: is_consonant_def)
    from ne have dec: "done = butlast done @ [last done]" by simp
    have pre: "?pre = concat (butlast done) @ [c]" by (subst dec) (simp add: c)
    from dsym have "\<forall>t \<in> set (butlast done). is_nucleus V D t \<or> is_consonant C t"
      by (meson in_set_butlastD)
    from syllable_behind_consonant_none [OF ok this c(1), of "concat (t # todo)"] pre
    have "?r (?pre, concat (t # todo), None) = []" by simp
    with False step IH show ?thesis by simp
  qed
qed

lemma findall_syllables_of_symbols:
  assumes "inventory_ok V D C" and "\<forall>t \<in> set symbols. is_nucleus V D t \<or> is_consonant C t"
  shows "findall (pattern_syllable V D C) (concat symbols) = syllables_of_symbols C symbols"
  using findall_symbols_scan [of V D C "[]" symbols] assms
  by (simp add: findall_def finditer_def pattern_syllable_def)

section \<open>What the matches keep and what they repeat\<close>

lemma syllables_of_symbols_none:
  assumes "\<forall>t \<in> set ts. is_consonant C t"
  shows "syllables_of_symbols C ts = []"
proof -
  from assms have "dropWhile (is_consonant C) ts = []"
    by (simp add: dropWhile_eq_Nil_conv)
  then show ?thesis by (subst syllables_of_symbols.simps) (simp only: list.case)
qed

lemma syllables_of_symbols_count:
  "length (syllables_of_symbols C ts) = length (filter (\<lambda>t. \<not> is_consonant C t) ts)"
proof (induction C ts rule: syllables_of_symbols.induct)
  case (1 C ts)
  let ?isC = "is_consonant C"
  show ?case
  proof (cases "dropWhile ?isC ts")
    case Nil
    then have all: "\<forall>t \<in> set ts. ?isC t" by (simp add: dropWhile_eq_Nil_conv)
    then have "filter (\<lambda>t. \<not> ?isC t) ts = []" by (simp add: filter_empty_conv)
    with syllables_of_symbols_none [OF all] show ?thesis by simp
  next
    case (Cons n rest)
    have ts: "ts = takeWhile ?isC ts @ n # rest" using Cons by (metis takeWhile_dropWhile_id)
    from Cons have n: "\<not> ?isC n" by (metis hd_dropWhile list.sel(1) list.distinct(1))
    have onset: "filter (\<lambda>t. \<not> ?isC t) (takeWhile ?isC ts) = []"
      by (simp add: filter_empty_conv) (metis set_takeWhileD)
    have "filter (\<lambda>t. \<not> ?isC t) ts = filter (\<lambda>t. \<not> ?isC t) (takeWhile ?isC ts @ n # rest)"
      using ts by simp
    with n onset have f: "filter (\<lambda>t. \<not> ?isC t) ts = n # filter (\<lambda>t. \<not> ?isC t) rest" by simp
    have "syllables_of_symbols C ts
            = (concat (takeWhile ?isC ts) @ n @ concat (takeWhile ?isC rest))
              # syllables_of_symbols C rest"
      using Cons by (subst syllables_of_symbols.simps) simp
    with 1 [OF Cons] f show ?thesis by simp
  qed
qed

lemma syllables_of_symbols_cover:
  assumes "\<exists>t \<in> set ts. \<not> is_consonant C t"
  shows "mset (concat ts) \<subseteq># mset (concat (syllables_of_symbols C ts))
       \<and> mset (concat (syllables_of_symbols C ts))
            \<subseteq># mset (concat ts)
                + mset (concat (filter (is_consonant C) (dropWhile (is_consonant C) ts)))"
  using assms
proof (induction C ts rule: syllables_of_symbols.induct)
  case (1 C ts)
  let ?isC = "is_consonant C"
  from 1(2) have "dropWhile ?isC ts \<noteq> []" by (simp add: dropWhile_eq_Nil_conv)
  then obtain n rest where dw: "dropWhile ?isC ts = n # rest" by (cases "dropWhile ?isC ts") auto
  let ?onset = "takeWhile ?isC ts"
  let ?coda = "takeWhile ?isC rest"
  have ts: "ts = ?onset @ n # rest" using dw by (metis takeWhile_dropWhile_id)
  from dw have n: "\<not> ?isC n" by (metis hd_dropWhile list.sel(1) list.distinct(1))
  have coda: "filter ?isC ?coda = ?coda"
    by (simp add: filter_id_conv) (metis set_takeWhileD)
  have os: "syllables_of_symbols C ts
              = (concat ?onset @ n @ concat ?coda) # syllables_of_symbols C rest"
    using dw by (subst syllables_of_symbols.simps) simp
  have mt: "mset (concat ts) = mset (concat ?onset) + mset n + mset (concat rest)"
    by (subst ts) simp
  show ?case
  proof (cases "\<exists>t \<in> set rest. \<not> ?isC t")
    case False
    then have all: "\<forall>t \<in> set rest. ?isC t" by blast
    then have "?coda = rest" by (simp add: takeWhile_eq_all_conv)
    with os syllables_of_symbols_none [OF all]
    have "concat (syllables_of_symbols C ts) = concat ?onset @ n @ concat rest" by simp
    then have "mset (concat (syllables_of_symbols C ts)) = mset (concat ts)"
      unfolding mt by simp
    then show ?thesis by simp
  next
    case True
    let ?M = "concat (syllables_of_symbols C rest)"
    from 1(1) [OF dw True]
    have lo: "mset (concat rest) \<subseteq># mset ?M"
      and hi: "mset ?M \<subseteq># mset (concat rest) + mset (concat (filter ?isC (dropWhile ?isC rest)))"
      by simp_all
    have cat: "concat (syllables_of_symbols C ts) = concat ?onset @ n @ concat ?coda @ ?M"
      using os by simp
    have "mset (concat ts) \<subseteq># mset (concat (syllables_of_symbols C ts))"
    proof -
      from lo have "mset (concat rest) \<subseteq># mset (concat ?coda) + mset ?M"
        by (metis mset_subset_eq_add_right subset_mset.order_trans)
      then have "mset (concat ?onset) + mset n + mset (concat rest)
          \<subseteq># mset (concat ?onset) + mset n + (mset (concat ?coda) + mset ?M)"
        by (rule mset_subset_eq_mono_add [OF subset_mset.order_refl])
      then show ?thesis by (simp add: cat mt ac_simps)
    qed
    moreover have "mset (concat (syllables_of_symbols C ts))
        \<subseteq># mset (concat ts) + mset (concat (filter ?isC (dropWhile ?isC ts)))"
    proof -
      have "filter ?isC rest = filter ?isC (?coda @ dropWhile ?isC rest)" by simp
      then have "filter ?isC rest = ?coda @ filter ?isC (dropWhile ?isC rest)"
        by (simp add: coda del: takeWhile_dropWhile_id)
      then have fr: "mset (concat (filter ?isC rest))
          = mset (concat ?coda) + mset (concat (filter ?isC (dropWhile ?isC rest)))"
        by simp
      from hi have "mset (concat ?onset) + mset n + mset (concat ?coda) + mset ?M
          \<subseteq># mset (concat ?onset) + mset n + mset (concat ?coda)
              + (mset (concat rest) + mset (concat (filter ?isC (dropWhile ?isC rest))))"
        by (rule mset_subset_eq_mono_add [OF subset_mset.order_refl])
      also have "\<dots> = mset (concat ts) + mset (concat (filter ?isC (dropWhile ?isC ts)))"
      proof -
        have a: "filter ?isC (dropWhile ?isC ts) = filter ?isC rest" using n dw by simp
        show ?thesis unfolding a mt fr by (simp only: ac_simps)
      qed
      finally show ?thesis by (simp add: cat ac_simps)
    qed
    ultimately show ?thesis by blast
  qed
qed

text \<open>The inventories of \<^verbatim>\<open>regex_en_ipa\<close> and \<^verbatim>\<open>regex_pol_ipa\<close>.\<close>

lemma english_inventory_ok:
  "inventory_ok [230, 593, 601, 603, 105, 618, 596, 117, 650, 652]
     [ustr ''aj'', ustr ''aw'', ustr ''ej'', ustr ''oj'', ustr ''ow'']
     [952, 119, 108, 109, 118, 104, 112, 609, 331, 115, 122, 98, 107, 643,
      633, 100, 110, 658, 106, 116, 240, 102, 865]"
  by (simp add: inventory_ok_def ustr_def)

lemma regex_pol_ipa_patterns:
  "regex_pol_ipa =
     (pattern_syllable [97, 603, 105, 616, 596, 117] [[603, 771], [596, 771]]
        [597, 657, 656, 611, 626, 642, 120, 119, 108, 109, 118, 112, 609, 331,
         115, 122, 98, 107, 100, 114, 110, 106, 116, 102, 124,
         100, 865, 122, 124, 100, 865, 657, 124, 100, 865, 656, 124, 116, 865, 597, 124,
         116, 865, 115, 124, 116, 865, 642, 124, 609, 690, 124, 107, 690],
      pattern_consonant
        [597, 657, 656, 611, 626, 642, 120, 119, 108, 109, 118, 112, 609, 331,
         115, 122, 98, 107, 100, 114, 110, 106, 116, 102, 124,
         100, 865, 122, 124, 100, 865, 657, 124, 100, 865, 656, 124, 116, 865, 597, 124,
         116, 865, 115, 124, 116, 865, 642, 124, 609, 690, 124, 107, 690])"
  by (simp add: regex_pol_ipa_def Let_def ustr_def)

lemma polish_inventory_ok:
  "inventory_ok [97, 603, 105, 616, 596, 117] [[603, 771], [596, 771]]
     [597, 657, 656, 611, 626, 642, 120, 119, 108, 109, 118, 112, 609, 331,
      115, 122, 98, 107, 100, 114, 110, 106, 116, 102, 124,
      100, 865, 122, 124, 100, 865, 657, 124, 100, 865, 656, 124, 116, 865, 597, 124,
      116, 865, 115, 124, 116, 865, 642, 124, 609, 690, 124, 107, 690]"
  by (simp add: inventory_ok_def)

lemma nucleus_not_consonant:
  assumes ok: "inventory_ok V D C" and n: "is_nucleus V D t"
  shows "\<not> is_consonant C t"
proof -
  from n consider v where "v \<in> set V" "t = [v]" | "t \<in> set D" by (auto simp: is_nucleus_def)
  then show ?thesis
  proof cases
    case 1
    with inventory_ok_disjoint [OF ok] show ?thesis by (auto simp: is_consonant_def)
  next
    case 2
    from inventory_ok_diphthong [OF ok 2] obtain a b where "t = [a, b]" by metis
    then show ?thesis by (simp add: is_consonant_def)
  qed
qed

lemma syllables_of_symbols_matches:
  assumes ok: "inventory_ok V D C"
    and sym: "\<forall>t \<in> set symbols. is_nucleus V D t \<or> is_consonant C t"
  shows "length (findall (pattern_syllable V D C) (concat symbols))
           = length (filter (is_nucleus V D) symbols)"
    and "mset (concat symbols)
           \<subseteq># mset (concat (if findall (pattern_syllable V D C) (concat symbols) \<noteq> []
                              then findall (pattern_syllable V D C) (concat symbols)
                              else findall (pattern_consonant C) (concat symbols)))"
    and "mset (concat (if findall (pattern_syllable V D C) (concat symbols) \<noteq> []
                       then findall (pattern_syllable V D C) (concat symbols)
                       else findall (pattern_consonant C) (concat symbols)))
           \<subseteq># mset (concat symbols) + mset (concat (filter (is_consonant C) symbols))"
proof -
  let ?isC = "is_consonant C"
  let ?P = "pattern_syllable V D C"
  let ?s = "concat symbols"
  have fa: "findall ?P ?s = syllables_of_symbols C symbols"
    using ok sym by (rule findall_syllables_of_symbols)
  have nc: "is_nucleus V D t \<longleftrightarrow> \<not> ?isC t" if "t \<in> set symbols" for t
    using that sym nucleus_not_consonant [OF ok, of t] by blast
  have "filter (is_nucleus V D) symbols = filter (\<lambda>t. \<not> ?isC t) symbols"
    by (rule filter_cong [OF refl]) (simp add: nc)
  with fa syllables_of_symbols_count [of C symbols]
  show len: "length (findall ?P ?s) = length (filter (is_nucleus V D) symbols)" by simp
  let ?syl = "if findall ?P ?s \<noteq> [] then findall ?P ?s else findall (pattern_consonant C) ?s"
  have "mset ?s \<subseteq># mset (concat ?syl)
      \<and> mset (concat ?syl) \<subseteq># mset ?s + mset (concat (filter ?isC symbols))"
  proof (cases "\<exists>t \<in> set symbols. \<not> ?isC t")
    case True
    from syllables_of_symbols_cover [OF True] fa
    have lo: "mset ?s \<subseteq># mset (concat (findall ?P ?s))"
      and hi: "mset (concat (findall ?P ?s))
                 \<subseteq># mset ?s + mset (concat (filter ?isC (dropWhile ?isC symbols)))"
      by simp_all
    have "filter ?isC symbols = filter ?isC (takeWhile ?isC symbols) @ filter ?isC (dropWhile ?isC symbols)"
      by (metis filter_append takeWhile_dropWhile_id)
    then have "mset (concat (filter ?isC (dropWhile ?isC symbols)))
        \<subseteq># mset (concat (filter ?isC symbols))"
      by (simp del: takeWhile_dropWhile_id)
    then have "mset ?s + mset (concat (filter ?isC (dropWhile ?isC symbols)))
        \<subseteq># mset ?s + mset (concat (filter ?isC symbols))"
      by (rule mset_subset_eq_mono_add [OF subset_mset.order_refl])
    with hi have hi': "mset (concat (findall ?P ?s))
        \<subseteq># mset ?s + mset (concat (filter ?isC symbols))"
      by (rule subset_mset.order_trans)
    from True have "filter (\<lambda>t. \<not> ?isC t) symbols \<noteq> []" by (simp add: filter_empty_conv)
    with fa syllables_of_symbols_count [of C symbols] have "findall ?P ?s \<noteq> []" by auto
    with lo hi' show ?thesis by simp
  next
    case False
    then have all: "\<forall>t \<in> set symbols. ?isC t" by blast
    with fa syllables_of_symbols_none [OF all] have none: "findall ?P ?s = []" by simp
    from all have sub: "set ?s \<subseteq> set C" by (auto simp: is_consonant_def)
    have "concat (findall (pattern_consonant C) ?s) = ?s"
    proof (cases "?s = []")
      case True
      show ?thesis unfolding True by (simp add: findall_consonant_empty)
    next
      case False
      from findall_consonant_run [OF False sub] show ?thesis by simp
    qed
    with none show ?thesis by simp
  qed
  then show "mset ?s \<subseteq># mset (concat ?syl)"
    and "mset (concat ?syl) \<subseteq># mset ?s + mset (concat (filter ?isC symbols))"
    by simp_all
qed

lemma findall_piti: "findall (fst regex_en_ipa) (ustr ''piti'') = [ustr ''pit'', ustr ''ti'']"
  by code_simp

lemma syllabify_piti: "syllabify (ustr ''piti'') (\<lambda>w. w) regex_en_ipa False = ustr ''pit_ti''"
  by code_simp

lemma syllabify_pix: "syllabify (ustr ''pix'') (\<lambda>w. w) regex_en_ipa False = []"
  by code_simp

lemma findall_pitowiaj:
  "findall (fst regex_en_ipa) (ustr ''pitowiaj'')
     = [ustr ''pit'', ustr ''tow'', ustr ''i'', ustr ''aj'']"
  by code_simp

text \<open>
  C5, as amended.  Every match of the syllable pattern is a contiguous piece of the
  phonemic string.  If the phonemic string is a sequence of symbols of the inventory
  (single vowels, diphthongs, single consonants), then there is one match for every
  nucleus, the syllables that \<open>syllabify\<close> joins are the matches, or with no match what
  the consonant pattern finds, and no character is dropped: every character occurs in
  the concatenated syllables at least as often as in the string.  Only consonant symbols
  are repeated, each at most once more than in the string: the consonants between two
  nuclei end one match and begin the next.
\<close>

theorem syllable_matches_cover:
  assumes "inventory_ok vowels diphtongues consonants"
    and "\<forall>t \<in> set symbols. is_nucleus vowels diphtongues t \<or> is_consonant consonants t"
    and "ipa_converter word = concat symbols"
  shows "(\<forall>m \<in> set (findall (pattern_syllable vowels diphtongues consonants) string).
            sublist m string)
       \<and> (let matches = findall (pattern_syllable vowels diphtongues consonants) (concat symbols);
               syllables = (if matches \<noteq> [] then matches
                            else findall (pattern_consonant consonants) (concat symbols))
           in length matches = length (filter (is_nucleus vowels diphtongues) symbols)
            \<and> syllabify word ipa_converter
                 (pattern_syllable vowels diphtongues consonants, pattern_consonant consonants) False
                = join (ustr ''_'') syllables
            \<and> mset (concat symbols) \<subseteq># mset (concat syllables)
            \<and> mset (concat syllables)
                 \<subseteq># mset (concat symbols) + mset (concat (filter (is_consonant consonants) symbols)))"
proof -
  have "\<forall>m \<in> set (findall (pattern_syllable vowels diphtongues consonants) string).
          sublist m string"
    using syllable_matches_sublist by blast
  moreover have "syllabify word ipa_converter
        (pattern_syllable vowels diphtongues consonants, pattern_consonant consonants) False
      = join (ustr ''_'')
          (if findall (pattern_syllable vowels diphtongues consonants) (concat symbols) \<noteq> []
           then findall (pattern_syllable vowels diphtongues consonants) (concat symbols)
           else findall (pattern_consonant consonants) (concat symbols))"
    using assms(3) by (simp add: syllabify_def Let_def)
  ultimately show ?thesis
    using syllables_of_symbols_matches [OF assms(1,2)] unfolding Let_def by blast
qed

theorem syllable_matches_cover_witness:
  "inventory_ok [230, 593, 601, 603, 105, 618, 596, 117, 650, 652]
     [ustr ''aj'', ustr ''aw'', ustr ''ej'', ustr ''oj'', ustr ''ow'']
     [952, 119, 108, 109, 118, 104, 112, 609, 331, 115, 122, 98, 107, 643,
      633, 100, 110, 658, 106, 116, 240, 102, 865]
   \<and> findall (fst regex_en_ipa) (ustr ''pitowiaj'')
       = [ustr ''pit'', ustr ''tow'', ustr ''i'', ustr ''aj'']
   \<and> length (findall (fst regex_en_ipa) (ustr ''pitowiaj''))
       = length [ustr ''i'', ustr ''ow'', ustr ''i'', ustr ''aj'']
   \<and> syllabify (ustr ''pitowiaj'') (\<lambda>w. w) regex_en_ipa False
       = join (ustr ''_'') (findall (fst regex_en_ipa) (ustr ''pitowiaj''))
   \<and> mset (ustr ''pitowiaj'') \<subseteq># mset (concat (findall (fst regex_en_ipa) (ustr ''pitowiaj'')))
   \<and> mset (concat (findall (fst regex_en_ipa) (ustr ''pitowiaj'')))
        \<subseteq># mset (ustr ''pitowiaj'') + mset (ustr ''pt'')"
proof -
  let ?V = "[230, 593, 601, 603, 105, 618, 596, 117, 650, 652] :: uchar list"
  let ?D = "[ustr ''aj'', ustr ''aw'', ustr ''ej'', ustr ''oj'', ustr ''ow'']"
  let ?C = "[952, 119, 108, 109, 118, 104, 112, 609, 331, 115, 122, 98, 107, 643,
             633, 100, 110, 658, 106, 116, 240, 102, 865] :: uchar list"
  let ?symbols = "[ustr ''p'', ustr ''i'', ustr ''t'', ustr ''ow'', ustr ''i'', ustr ''aj'']"
  have h1: "inventory_ok ?V ?D ?C" by (rule english_inventory_ok)
  have h2: "\<forall>t \<in> set ?symbols. is_nucleus ?V ?D t \<or> is_consonant ?C t"
    by (simp add: is_nucleus_def is_consonant_def ustr_def)
  have h3: "ustr ''pitowiaj'' = concat ?symbols" by (simp add: ustr_def)
  have cat: "concat ?symbols = ustr ''pitowiaj''" by (simp add: ustr_def)
  have nuc: "filter (is_nucleus ?V ?D) ?symbols = [ustr ''i'', ustr ''ow'', ustr ''i'', ustr ''aj'']"
    by (simp add: is_nucleus_def ustr_def)
  have con: "concat (filter (is_consonant ?C) ?symbols) = ustr ''pt''"
    by (simp add: is_consonant_def ustr_def)
  have f: "regex_en_ipa = (pattern_syllable ?V ?D ?C, pattern_consonant ?C)"
    by (rule regex_en_ipa_patterns)
  have ne: "findall (pattern_syllable ?V ?D ?C) (ustr ''pitowiaj'') \<noteq> []"
    using findall_pitowiaj unfolding f by simp
  note inst = syllable_matches_cover [where ipa_converter = "\<lambda>w. w" and word = "ustr ''pitowiaj''"
      and string = "[]", OF h1 h2]
  from inst [OF h3]
  have "length (findall (pattern_syllable ?V ?D ?C) (ustr ''pitowiaj''))
          = length [ustr ''i'', ustr ''ow'', ustr ''i'', ustr ''aj'']
      \<and> syllabify (ustr ''pitowiaj'') (\<lambda>w. w) (pattern_syllable ?V ?D ?C, pattern_consonant ?C) False
          = join (ustr ''_'') (findall (pattern_syllable ?V ?D ?C) (ustr ''pitowiaj''))
      \<and> mset (ustr ''pitowiaj'')
          \<subseteq># mset (concat (findall (pattern_syllable ?V ?D ?C) (ustr ''pitowiaj'')))
      \<and> mset (concat (findall (pattern_syllable ?V ?D ?C) (ustr ''pitowiaj'')))
          \<subseteq># mset (ustr ''pitowiaj'') + mset (ustr ''pt'')"
    unfolding Let_def cat nuc con using ne by simp
  with h1 findall_pitowiaj show ?thesis unfolding f by simp
qed

text \<open>The claim as stated fails: in "piti" the consonant between the vowels is in both
  matches, so the matches have one character more than the string; and of "pix", whose
  last character is no symbol of the inventory, nothing is left.\<close>

theorem syllable_matches_counterexample:
  "findall (fst regex_en_ipa) (ustr ''piti'') = [ustr ''pit'', ustr ''ti'']
   \<and> syllabify (ustr ''piti'') (\<lambda>w. w) regex_en_ipa False = ustr ''pit_ti''
   \<and> mset (concat [ustr ''pit'', ustr ''ti'']) \<noteq> mset (ustr ''piti'')
   \<and> syllabify (ustr ''pix'') (\<lambda>w. w) regex_en_ipa False = []"
proof -
  have "length (concat [ustr ''pit'', ustr ''ti'']) \<noteq> length (ustr ''piti'')"
    by (simp add: ustr_def)
  then have "mset (concat [ustr ''pit'', ustr ''ti'']) \<noteq> mset (ustr ''piti'')"
    using mset_eq_length by blast
  with findall_piti syllabify_piti syllabify_pix show ?thesis by simp
qed

end
